theory Spec2Isabelle
  imports
    Main
    "HOL-Library.AList"
    "HOL-Library.Char_ord"
    "HOL-Library.List_Lexorder"
    "HOL-Library.Product_Lexorder"
begin

section \<open>Data model of \<open>tools/json_generator/src/generate.py\<close>\<close>

text \<open>
  A node is a Python \<open>dict[str, Any]\<close> loaded from YAML. Every key may be absent, so
  every field is an option (\<open>None\<close> = the key is not in the dict). String-valued
  fields are strings; \<open>edges\<close> is a list of edge dicts, each with an optional
  \<open>target\<close> key. A key that is present with a value of another type (a YAML null, a
  number) is outside the model.
\<close>

record edge =
  e_target :: "string option"

record node =
  n_id :: "string option"
  n_label :: "string option"
  n_type :: "string option"
  n_app :: "string option"
  n_owner :: "string option"
  n_last_modified :: "string option"
  n_spl_code :: "string option"
  n_edges :: "edge list option"

text \<open>
  A Python \<open>dict\<close> keeps its keys in insertion order, and assigning to an existing key
  keeps the key's position: an association list read with \<open>map_of\<close> and written with
  \<open>AList.update\<close>.
\<close>

type_synonym ('k, 'v) dict = "('k \<times> 'v) list"

type_synonym adjacency = "(string, string list) dict"

text \<open>An uncaught Python exception; the only one the modelled code can raise is
  \<open>KeyError\<close> from a subscript \<open>d[key]\<close> on a missing key.\<close>

datatype py_error = KeyError string

text \<open>\<open>node.get("edges", [])\<close>\<close>

definition get_edges :: "node \<Rightarrow> edge list" where
  "get_edges nd = (case n_edges nd of None \<Rightarrow> [] | Some es \<Rightarrow> es)"

text \<open>\<open>adjacency.get(current_id, [])\<close>\<close>

definition adj_get :: "adjacency \<Rightarrow> string \<Rightarrow> string list" where
  "adj_get adjacency k = (case map_of adjacency k of None \<Rightarrow> [] | Some ns \<Rightarrow> ns)"

section \<open>The closure engine: \<open>collect_transitive_edges\<close>\<close>

text \<open>The four local variables of \<open>collect_transitive_edges\<close>.\<close>

record bfs_state =
  edges :: "(string \<times> string) list"
  visited_edges :: "(string \<times> string) set"
  visited_nodes :: "string set"
  queue :: "string list"

text \<open>Lines 186-190: the pair recorded for a neighbor of the dequeued node.\<close>

definition oriented_edge :: "string \<Rightarrow> string \<Rightarrow> string \<Rightarrow> string \<times> string" where
  "oriented_edge direction current_id neighbor =
     (if direction = ''downstream'' then (current_id, neighbor) else (neighbor, current_id))"

text \<open>Lines 186-198: the body of \<open>for neighbor in neighbors\<close>.\<close>

definition for_body :: "string \<Rightarrow> string \<Rightarrow> string \<Rightarrow> bfs_state \<Rightarrow> bfs_state" where
  "for_body direction current_id neighbor st =
     (let edge = oriented_edge direction current_id neighbor;
          st1 = (if edge \<notin> visited_edges st
                 then st\<lparr>visited_edges := insert edge (visited_edges st),
                         edges := edges st @ [edge]\<rparr>
                 else st)
      in if neighbor \<notin> visited_nodes st1
         then st1\<lparr>visited_nodes := insert neighbor (visited_nodes st1),
                  queue := queue st1 @ [neighbor]\<rparr>
         else st1)"

text \<open>Lines 182-198: the body of \<open>while queue\<close>: \<open>popleft\<close>, the lookup, the inner loop.\<close>

definition while_body :: "adjacency \<Rightarrow> string \<Rightarrow> bfs_state \<Rightarrow> bfs_state" where
  "while_body adjacency direction st =
     (case queue st of
        [] \<Rightarrow> st
      | current_id # rest \<Rightarrow>
          fold (for_body direction current_id) (adj_get adjacency current_id)
               (st\<lparr>queue := rest\<rparr>))"

text \<open>Every node id that occurs in an adjacency structure, as a key or as a neighbor.\<close>

definition adj_nodes :: "adjacency \<Rightarrow> string set" where
  "adj_nodes adjacency = fst ` set adjacency \<union> \<Union> (set ` snd ` set adjacency)"

text \<open>The edge relation an adjacency structure denotes: \<open>(u, v)\<close> when \<open>v\<close> is listed
  under \<open>u\<close>.\<close>

definition adj_rel :: "adjacency \<Rightarrow> (string \<times> string) set" where
  "adj_rel adjacency = {(u, v). v \<in> set (adj_get adjacency u)}"

lemma fold_for_body_visited:
  "visited_nodes (fold (for_body d c) ns st) = visited_nodes st \<union> set ns"
  by (induction ns arbitrary: st) (auto simp: for_body_def Let_def)

lemma fold_for_body_queue_length:
  "length (queue (fold (for_body d c) ns st)) =
     length (queue st) + card (set ns - visited_nodes st)"
proof (induction ns arbitrary: st)
  case Nil
  then show ?case by simp
next
  case (Cons n ns)
  let ?st = "for_body d c n st"
  have v: "visited_nodes ?st = insert n (visited_nodes st)"
    by (auto simp: for_body_def Let_def)
  have q: "length (queue ?st) = length (queue st) + (if n \<in> visited_nodes st then 0 else 1)"
    by (auto simp: for_body_def Let_def)
  have "set (n # ns) - visited_nodes st =
        (if n \<in> visited_nodes st then {} else {n}) \<union> (set ns - insert n (visited_nodes st))"
    by auto
  then have "card (set (n # ns) - visited_nodes st) =
        (if n \<in> visited_nodes st then 0 else 1) + card (set ns - insert n (visited_nodes st))"
    by (auto simp: card_insert_if)
  with Cons.IH[of ?st] v q show ?case by simp
qed

lemma adj_get_subset_nodes: "set (adj_get adjacency k) \<subseteq> adj_nodes adjacency"
proof (cases "map_of adjacency k")
  case None
  then show ?thesis by (simp add: adj_get_def)
next
  case (Some ns)
  then have "(k, ns) \<in> set adjacency" by (rule map_of_SomeD)
  then have "set ns \<subseteq> \<Union> (set ` snd ` set adjacency)" by force
  with Some show ?thesis by (auto simp: adj_get_def adj_nodes_def)
qed

lemma finite_adj_nodes: "finite (adj_nodes adjacency)"
  by (simp add: adj_nodes_def)

lemma while_body_decreases:
  assumes "queue st \<noteq> []"
  shows "card (adj_nodes adjacency - visited_nodes (while_body adjacency d st))
           < card (adj_nodes adjacency - visited_nodes st)
         \<or> (card (adj_nodes adjacency - visited_nodes (while_body adjacency d st))
              = card (adj_nodes adjacency - visited_nodes st)
            \<and> length (queue (while_body adjacency d st)) < length (queue st))"
proof -
  from assms obtain c rest where q: "queue st = c # rest" by (cases "queue st") auto
  let ?ns = "adj_get adjacency c"
  let ?st' = "while_body adjacency d st"
  have st': "?st' = fold (for_body d c) ?ns (st\<lparr>queue := rest\<rparr>)"
    by (simp add: while_body_def q)
  have v: "visited_nodes ?st' = visited_nodes st \<union> set ?ns"
    by (simp add: st' fold_for_body_visited)
  have l: "length (queue ?st') = length rest + card (set ?ns - visited_nodes st)"
    by (simp add: st' fold_for_body_queue_length)
  show ?thesis
  proof (cases "set ?ns \<subseteq> visited_nodes st")
    case True
    then have "visited_nodes ?st' = visited_nodes st" using v by auto
    moreover from True have "set ?ns - visited_nodes st = {}" by auto
    ultimately show ?thesis using l q by simp
  next
    case False
    then obtain x where x: "x \<in> set ?ns" "x \<notin> visited_nodes st" by auto
    then have xin: "x \<in> adj_nodes adjacency" using adj_get_subset_nodes by auto
    have "adj_nodes adjacency - visited_nodes ?st' \<subset> adj_nodes adjacency - visited_nodes st"
      using v x xin by auto
    then show ?thesis
      by (simp add: psubset_card_mono finite_adj_nodes)
  qed
qed

text \<open>Lines 181-198: the \<open>while queue\<close> loop. It is total: each iteration either visits
  a new node of the (finite) adjacency structure or shortens the queue.\<close>

function bfs_while :: "adjacency \<Rightarrow> string \<Rightarrow> bfs_state \<Rightarrow> bfs_state" where
  "bfs_while adjacency direction st =
     (if queue st = [] then st
      else bfs_while adjacency direction (while_body adjacency direction st))"
  by pat_completeness auto
termination
proof (relation "measures
         [\<lambda>(adjacency, direction, st). card (adj_nodes adjacency - visited_nodes st),
          \<lambda>(adjacency, direction, st). length (queue st)]")
  show "wf (measures
         [\<lambda>(adjacency, direction, st). card (adj_nodes adjacency - visited_nodes st),
          \<lambda>(adjacency :: adjacency, direction :: string, st). length (queue st)])"
    by simp
next
  fix adjacency :: adjacency and direction :: string and st :: bfs_state
  assume "queue st \<noteq> []"
  from while_body_decreases[OF this, of adjacency direction]
  show "((adjacency, direction, while_body adjacency direction st), adjacency, direction, st)
        \<in> measures
         [\<lambda>(adjacency, direction, st). card (adj_nodes adjacency - visited_nodes st),
          \<lambda>(adjacency, direction, st). length (queue st)]"
    by auto
qed

declare bfs_while.simps [simp del]

text \<open>Lines 176-179: the initial values of the local variables.\<close>

definition bfs_init :: "string \<Rightarrow> bfs_state" where
  "bfs_init start_id =
     \<lparr>edges = [], visited_edges = {}, visited_nodes = {start_id}, queue = [start_id]\<rparr>"

definition collect_transitive_edges ::
  "string \<Rightarrow> adjacency \<Rightarrow> string \<Rightarrow> (string \<times> string) list" where
  "collect_transitive_edges start_id adjacency direction =
     edges (bfs_while adjacency direction (bfs_init start_id))"

text \<open>The loop invariant of the traversal from \<open>s\<close>: the queue holds visited nodes,
  once each; visited nodes are reachable; the nodes already dequeued have all their
  neighbors visited and all their pairs recorded; the list and the set of recorded
  pairs agree.\<close>

definition bfs_inv :: "adjacency \<Rightarrow> string \<Rightarrow> string \<Rightarrow> bfs_state \<Rightarrow> bool" where
  "bfs_inv adjacency d s st \<longleftrightarrow>
     s \<in> visited_nodes st \<and> set (queue st) \<subseteq> visited_nodes st \<and> distinct (queue st) \<and>
     visited_nodes st \<subseteq> (adj_rel adjacency)\<^sup>* `` {s} \<and>
     (\<forall>u \<in> visited_nodes st - set (queue st). adj_rel adjacency `` {u} \<subseteq> visited_nodes st) \<and>
     visited_edges st = {oriented_edge d u v | u v.
        u \<in> visited_nodes st - set (queue st) \<and> (u, v) \<in> adj_rel adjacency} \<and>
     set (edges st) = visited_edges st \<and> distinct (edges st)"

text \<open>The nodes appended to the queue during the next \<open>k\<close> iterations of the
  \<open>while\<close> loop from state \<open>st\<close>, in the order of the \<open>queue.append\<close> calls: an
  iteration pops the head and appends at the end, so what it appended is the new queue
  without the old tail.\<close>

primrec enq_log :: "adjacency \<Rightarrow> string \<Rightarrow> nat \<Rightarrow> bfs_state \<Rightarrow> string list" where
  "enq_log adjacency direction 0 st = []"
| "enq_log adjacency direction (Suc k) st =
     (case queue st of
        [] \<Rightarrow> []
      | current_id # rest \<Rightarrow>
          drop (length rest) (queue (while_body adjacency direction st))
          @ enq_log adjacency direction k (while_body adjacency direction st))"

section \<open>Validation\<close>

text \<open>\<open>field in node\<close>, for the keys the program reads.\<close>

definition has_field :: "node \<Rightarrow> string \<Rightarrow> bool" where
  "has_field nd field =
     (if field = ''id'' then n_id nd \<noteq> None
      else if field = ''label'' then n_label nd \<noteq> None
      else if field = ''type'' then n_type nd \<noteq> None
      else if field = ''app'' then n_app nd \<noteq> None
      else if field = ''owner'' then n_owner nd \<noteq> None
      else if field = ''last_modified'' then n_last_modified nd \<noteq> None
      else if field = ''spl_code'' then n_spl_code nd \<noteq> None
      else if field = ''edges'' then n_edges nd \<noteq> None
      else False)"

text \<open>Python's \<open>s.split(sep)\<close> for a one-character separator: one part more than there
  are separators, empty parts kept.\<close>

fun split_on :: "char \<Rightarrow> string \<Rightarrow> string list" where
  "split_on sep [] = [[]]"
| "split_on sep (c # cs) =
     (if c = sep then [] # split_on sep cs
      else (case split_on sep cs of
              [] \<Rightarrow> [[c]]
            | p # ps \<Rightarrow> (c # p) # ps))"

definition validate_id_format :: "string \<Rightarrow> bool" where
  "validate_id_format node_id = (let parts = split_on CHR ''-'' node_id in length parts \<ge> 3)"

text \<open>The error messages of \<open>validate_nodes\<close>, one constructor per f-string, carrying the
  values the message interpolates:
  \<^item> \<open>MissingField i field\<close>: \<^verbatim>\<open>Node {i}: Missing required field '{field}'\<close>
  \<^item> \<open>DuplicateId node_id\<close>: \<^verbatim>\<open>Node '{node_id}': Duplicate ID\<close>
  \<^item> \<open>BadIdFormat node_id\<close>: \<^verbatim>\<open>Node '{node_id}': ID doesn't match ... pattern\<close>
  \<^item> \<open>InvalidType node_id type\<close>: \<^verbatim>\<open>Node '{node_id}': Invalid type '{type}'. ...\<close>
  \<^item> \<open>EdgeMissingTarget node_id\<close>: \<^verbatim>\<open>Node '{node_id}': Edge missing 'target' field\<close>
  \<^item> \<open>NonExistentTarget node_id target\<close>:
    \<^verbatim>\<open>Node '{node_id}': Edge references non-existent target '{target}'\<close>\<close>

datatype violation =
    MissingField nat string
  | DuplicateId string
  | BadIdFormat string
  | InvalidType string string
  | EdgeMissingTarget string
  | NonExistentTarget string string

definition required_fields :: "string list" where
  "required_fields = [''id'', ''label'', ''type'', ''app'', ''owner'', ''last_modified'']"

definition valid_types :: "string set" where
  "valid_types = {''index'', ''saved_search'', ''macro'', ''lookup_def'', ''lookup_file'',
                  ''dashboard'', ''data_model'', ''event_type''}"

text \<open>Lines 81-83: the loop over \<open>required_fields\<close>.\<close>

definition missing_field_errors :: "nat \<Rightarrow> node \<Rightarrow> violation list" where
  "missing_field_errors i nd =
     map (MissingField i) (filter (\<lambda>field. \<not> has_field nd field) required_fields)"

text \<open>Lines 106-110: the check of one edge.\<close>

definition edge_errors :: "string set \<Rightarrow> string \<Rightarrow> edge \<Rightarrow> violation list" where
  "edge_errors all_ids node_id e =
     (case e_target e of
        None \<Rightarrow> [EdgeMissingTarget node_id]
      | Some target \<Rightarrow>
          if target \<notin> all_ids then [NonExistentTarget node_id target] else [])"

text \<open>Lines 80-110: the body of \<open>for i, node in enumerate(nodes)\<close>, on the two variables
  it updates, \<open>seen_ids\<close> and \<open>errors\<close>. A node without id takes the \<open>continue\<close> of
  line 86.\<close>

definition validate_body ::
  "string set \<Rightarrow> nat \<times> node \<Rightarrow> string set \<times> violation list \<Rightarrow> string set \<times> violation list"
  where
  "validate_body all_ids ind st =
     (case ind of (i, nd) \<Rightarrow> case st of (seen_ids, errors) \<Rightarrow>
      let errors1 = errors @ missing_field_errors i nd in
      case n_id nd of
        None \<Rightarrow> (seen_ids, errors1)
      | Some node_id \<Rightarrow>
          let errors2 = errors1 @ (if node_id \<in> seen_ids then [DuplicateId node_id] else []);
              seen_ids2 = insert node_id seen_ids;
              errors3 = errors2 @ (if \<not> validate_id_format node_id
                                   then [BadIdFormat node_id] else []);
              errors4 = errors3 @
                 (case n_type nd of
                    None \<Rightarrow> []
                  | Some t \<Rightarrow> if t \<notin> valid_types then [InvalidType node_id t] else []);
              errors5 = errors4 @ concat (map (edge_errors all_ids node_id) (get_edges nd))
          in (seen_ids2, errors5))"

text \<open>The ids of the nodes that have one, in list order.\<close>

definition node_ids :: "node list \<Rightarrow> string list" where
  "node_ids nodes = List.map_filter n_id nodes"

definition validate_nodes :: "node list \<Rightarrow> violation list" where
  "validate_nodes nodes =
     (let all_ids = set (node_ids nodes)
      in snd (fold (validate_body all_ids) (enumerate 0 nodes) ({}, [])))"

section \<open>Derived structures\<close>

text \<open>A subscript \<open>d[key]\<close> on a dict read as an option, and sequencing of computations
  that may raise.\<close>

definition subscript :: "string \<Rightarrow> 'a option \<Rightarrow> py_error + 'a" where
  "subscript key v = (case v of None \<Rightarrow> Inl (KeyError key) | Some x \<Rightarrow> Inr x)"

definition and_then :: "py_error + 'a \<Rightarrow> ('a \<Rightarrow> py_error + 'b) \<Rightarrow> py_error + 'b" where
  "and_then r f = (case r of Inl e \<Rightarrow> Inl e | Inr x \<Rightarrow> f x)"

type_synonym reverse_lookup = "(string, string set) dict"

text \<open>Line 117: the dict comprehension \<open>{node["id"]: set() for node in nodes}\<close>.\<close>

fun reverse_init :: "node list \<Rightarrow> reverse_lookup \<Rightarrow> py_error + reverse_lookup" where
  "reverse_init [] rl = Inr rl"
| "reverse_init (nd # nds) rl =
     and_then (subscript ''id'' (n_id nd))
       (\<lambda>node_id. reverse_init nds (AList.update node_id {} rl))"

text \<open>Lines 123-126: the loop over the edges of one node.\<close>

fun add_referrer :: "string \<Rightarrow> edge list \<Rightarrow> reverse_lookup \<Rightarrow> py_error + reverse_lookup" where
  "add_referrer node_id [] rl = Inr rl"
| "add_referrer node_id (e # es) rl =
     and_then (subscript ''target'' (e_target e))
       (\<lambda>target. add_referrer node_id es
          (case map_of rl target of
             None \<Rightarrow> rl
           | Some referrers \<Rightarrow> AList.update target (insert node_id referrers) rl))"

text \<open>Lines 119-126.\<close>

fun reverse_loop :: "node list \<Rightarrow> reverse_lookup \<Rightarrow> py_error + reverse_lookup" where
  "reverse_loop [] rl = Inr rl"
| "reverse_loop (nd # nds) rl =
     and_then (subscript ''id'' (n_id nd))
       (\<lambda>node_id. and_then (add_referrer node_id (get_edges nd) rl) (reverse_loop nds))"

definition build_reverse_lookup :: "node list \<Rightarrow> py_error + reverse_lookup" where
  "build_reverse_lookup nodes = and_then (reverse_init nodes []) (reverse_loop nodes)"

text \<open>\<open>d[k].append(x)\<close> on a \<open>defaultdict(list)\<close>: a missing key starts from the empty
  list.\<close>

definition dict_append :: "adjacency \<Rightarrow> string \<Rightarrow> string \<Rightarrow> adjacency" where
  "dict_append d k x = AList.update k (adj_get d k @ [x]) d"

text \<open>Lines 147-150: \<open>if node_id not in d: d[node_id] = []\<close>.\<close>

definition ensure_key :: "adjacency \<Rightarrow> string \<Rightarrow> adjacency" where
  "ensure_key d k = (if map_of d k = None then AList.update k [] d else d)"

text \<open>Lines 152-155: the loop over the edges of one node.\<close>

fun add_edges ::
  "string \<Rightarrow> edge list \<Rightarrow> adjacency \<times> adjacency \<Rightarrow> py_error + adjacency \<times> adjacency" where
  "add_edges node_id [] s = Inr s"
| "add_edges node_id (e # es) s =
     (case s of (outgoing, incoming) \<Rightarrow>
      and_then (subscript ''target'' (e_target e))
        (\<lambda>target. add_edges node_id es
           (dict_append outgoing node_id target, dict_append incoming target node_id)))"

text \<open>Lines 144-155.\<close>

fun build_loop ::
  "node list \<Rightarrow> adjacency \<times> adjacency \<Rightarrow> py_error + adjacency \<times> adjacency" where
  "build_loop [] s = Inr s"
| "build_loop (nd # nds) s =
     (case s of (outgoing, incoming) \<Rightarrow>
      and_then (subscript ''id'' (n_id nd))
        (\<lambda>node_id.
           and_then (add_edges node_id (get_edges nd)
                       (ensure_key outgoing node_id, ensure_key incoming node_id))
             (build_loop nds)))"

definition build_graph_structures :: "node list \<Rightarrow> py_error + adjacency \<times> adjacency" where
  "build_graph_structures nodes = build_loop nodes ([], [])"

section \<open>Emitters\<close>

record graph_edge =
  source :: string
  target :: string

text \<open>
  \<open>all_edges\<close> is a Python \<open>set\<close>; \<open>sorted(all_edges)\<close> iterates it and sorts what it gets.
  The iteration order of a set of strings is not fixed (it follows the hash values, which
  change from run to run), so it is a parameter \<open>iter_order\<close>: any function that lists
  each finite set without repetition.
\<close>

definition set_iteration :: "('a set \<Rightarrow> 'a list) \<Rightarrow> bool" where
  "set_iteration iter_order \<longleftrightarrow>
     (\<forall>S. finite S \<longrightarrow> set (iter_order S) = S \<and> distinct (iter_order S))"

definition collect_all_edges_for_node ::
  "((string \<times> string) set \<Rightarrow> (string \<times> string) list)
     \<Rightarrow> string \<Rightarrow> adjacency \<Rightarrow> adjacency \<Rightarrow> graph_edge list" where
  "collect_all_edges_for_node iter_order node_id outgoing incoming =
     (let downstream_edges = collect_transitive_edges node_id outgoing ''downstream'';
          all_edges = {} \<union> set downstream_edges;
          upstream_edges = collect_transitive_edges node_id incoming ''upstream'';
          all_edges = all_edges \<union> set upstream_edges
      in map (\<lambda>(s, t). \<lparr>source = s, target = t\<rparr>) (sort (iter_order all_edges)))"

record index_record =
  i_label :: string
  i_type :: string
  i_app :: string
  i_owner :: string
  isolated :: bool

type_synonym index_json = "(string, index_record) dict"

text \<open>\<open>bool(reverse_lookup.get(node_id))\<close>\<close>

definition has_incoming :: "reverse_lookup \<Rightarrow> string \<Rightarrow> bool" where
  "has_incoming rl node_id = (case map_of rl node_id of None \<Rightarrow> False | Some s \<Rightarrow> s \<noteq> {})"

text \<open>Lines 236-248: the loop of \<open>generate_index_json\<close> on its variable \<open>index\<close>.\<close>

fun index_loop :: "node list \<Rightarrow> reverse_lookup \<Rightarrow> index_json \<Rightarrow> py_error + index_json" where
  "index_loop [] rl index = Inr index"
| "index_loop (nd # nds) rl index =
     and_then (subscript ''id'' (n_id nd)) (\<lambda>node_id.
     let edges = get_edges nd;
         has_edges = (edges \<noteq> []);
         has_incoming = has_incoming rl node_id
     in
     and_then (subscript ''label'' (n_label nd)) (\<lambda>label.
     and_then (subscript ''type'' (n_type nd)) (\<lambda>ty.
     and_then (subscript ''app'' (n_app nd)) (\<lambda>app.
     and_then (subscript ''owner'' (n_owner nd)) (\<lambda>owner.
       index_loop nds rl
         (AList.update node_id
            \<lparr>i_label = label, i_type = ty, i_app = app, i_owner = owner,
             isolated = (\<not> has_edges \<and> \<not> has_incoming)\<rparr> index))))))"

definition generate_index_json :: "node list \<Rightarrow> reverse_lookup \<Rightarrow> py_error + index_json" where
  "generate_index_json nodes rl = index_loop nodes rl []"

record graph_node =
  g_id :: string
  g_label :: string
  g_type :: string
  g_app :: string
  g_owner :: string
  g_last_modified :: string
  g_edges :: "graph_edge list"

record graph_json =
  version :: string
  g_nodes :: "graph_node list"

text \<open>Lines 267-281: the loop of \<open>generate_graph_json\<close> on its variable \<open>graph_nodes\<close>.\<close>

fun graph_loop ::
  "((string \<times> string) set \<Rightarrow> (string \<times> string) list) \<Rightarrow> node list \<Rightarrow> adjacency \<Rightarrow> adjacency
     \<Rightarrow> graph_node list \<Rightarrow> py_error + graph_node list" where
  "graph_loop iter_order [] outgoing incoming graph_nodes = Inr graph_nodes"
| "graph_loop iter_order (nd # nds) outgoing incoming graph_nodes =
     and_then (subscript ''id'' (n_id nd)) (\<lambda>node_id.
     let all_edges = collect_all_edges_for_node iter_order node_id outgoing incoming in
     and_then (subscript ''label'' (n_label nd)) (\<lambda>label.
     and_then (subscript ''type'' (n_type nd)) (\<lambda>ty.
     and_then (subscript ''app'' (n_app nd)) (\<lambda>app.
     and_then (subscript ''owner'' (n_owner nd)) (\<lambda>owner.
     and_then (subscript ''last_modified'' (n_last_modified nd)) (\<lambda>last_modified.
       graph_loop iter_order nds outgoing incoming
         (graph_nodes @
            [\<lparr>g_id = node_id, g_label = label, g_type = ty, g_app = app, g_owner = owner,
              g_last_modified = last_modified, g_edges = all_edges\<rparr>])))))))"

definition generate_graph_json ::
  "((string \<times> string) set \<Rightarrow> (string \<times> string) list) \<Rightarrow> node list \<Rightarrow> adjacency \<Rightarrow> adjacency
     \<Rightarrow> py_error + graph_json" where
  "generate_graph_json iter_order nds outgoing incoming =
     and_then (graph_loop iter_order nds outgoing incoming [])
       (\<lambda>graph_nodes. Inr \<lparr>version = ''1.0.0'', g_nodes = graph_nodes\<rparr>)"

record object_json =
  o_id :: string
  o_label :: string
  o_type :: string
  o_app :: string
  o_owner :: string
  o_last_modified :: string
  spl_code :: "string option"
  upstream_count :: nat
  downstream_count :: nat

definition generate_object_json :: "node \<Rightarrow> reverse_lookup \<Rightarrow> py_error + object_json" where
  "generate_object_json nd rl =
     and_then (subscript ''id'' (n_id nd)) (\<lambda>node_id.
     let edges = get_edges nd in
     and_then (subscript ''label'' (n_label nd)) (\<lambda>label.
     and_then (subscript ''type'' (n_type nd)) (\<lambda>ty.
     and_then (subscript ''app'' (n_app nd)) (\<lambda>app.
     and_then (subscript ''owner'' (n_owner nd)) (\<lambda>owner.
     and_then (subscript ''last_modified'' (n_last_modified nd)) (\<lambda>last_modified.
       Inr \<lparr>o_id = node_id, o_label = label, o_type = ty, o_app = app, o_owner = owner,
            o_last_modified = last_modified, spl_code = n_spl_code nd,
            upstream_count = (case map_of rl node_id of None \<Rightarrow> 0 | Some s \<Rightarrow> card s),
            downstream_count = length edges\<rparr>))))))"

section \<open>The run: \<open>main\<close> from the loaded node list on\<close>

text \<open>What a run leaves behind: its exit status (\<open>0\<close>, or \<open>1\<close> for \<open>sys.exit(1)\<close> and for
  an uncaught exception), the directories it created and the files it wrote, in order.\<close>

datatype json_content =
    IndexJson index_json
  | GraphJson graph_json
  | ObjectJson object_json

record outcome =
  exit_status :: nat
  dirs_created :: "string list"
  files_written :: "(string \<times> json_content) list"

text \<open>Lines 436-438: one file per node, written as soon as its content is computed.\<close>

fun write_objects ::
  "string \<Rightarrow> node list \<Rightarrow> reverse_lookup \<Rightarrow> string list \<Rightarrow> (string \<times> json_content) list
     \<Rightarrow> outcome" where
  "write_objects nodes_dir [] rl dirs files =
     \<lparr>exit_status = 0, dirs_created = dirs, files_written = files\<rparr>"
| "write_objects nodes_dir (nd # nds) rl dirs files =
     (case generate_object_json nd rl of
        Inl e \<Rightarrow> \<lparr>exit_status = 1, dirs_created = dirs, files_written = files\<rparr>
      | Inr object_data \<Rightarrow>
          write_objects nodes_dir nds rl dirs
            (files @ [(nodes_dir @ ''/'' @ o_id object_data @ ''.json'', ObjectJson object_data)]))"

text \<open>Lines 397-438 of \<open>main\<close>, from the node list \<open>nodes\<close> that the loading part (lines
  361-395: argument parsing and YAML reading) has produced. The prints and the summary
  statistics after the last write (lines 440-470) change neither the files nor the
  exit status and are left out.\<close>

definition main ::
  "((string \<times> string) set \<Rightarrow> (string \<times> string) list) \<Rightarrow> string \<Rightarrow> bool \<Rightarrow> node list \<Rightarrow> outcome"
  where
  "main iter_order output_dir validate_only nds =
     (let errors = validate_nodes nds in
      if errors \<noteq> [] then \<lparr>exit_status = 1, dirs_created = [], files_written = []\<rparr>
      else if validate_only then \<lparr>exit_status = 0, dirs_created = [], files_written = []\<rparr>
      else
        case build_reverse_lookup nds of
          Inl e \<Rightarrow> \<lparr>exit_status = 1, dirs_created = [], files_written = []\<rparr>
        | Inr reverse_lookup \<Rightarrow>
        case build_graph_structures nds of
          Inl e \<Rightarrow> \<lparr>exit_status = 1, dirs_created = [], files_written = []\<rparr>
        | Inr (outgoing, incoming) \<Rightarrow>
        let nodes_dir = output_dir @ ''/nodes'';
            dirs = [nodes_dir]
        in
        case generate_index_json nds reverse_lookup of
          Inl e \<Rightarrow> \<lparr>exit_status = 1, dirs_created = dirs, files_written = []\<rparr>
        | Inr index_data \<Rightarrow>
        let files1 = [(output_dir @ ''/index.json'', IndexJson index_data)] in
        case generate_graph_json iter_order nds outgoing incoming of
          Inl e \<Rightarrow> \<lparr>exit_status = 1, dirs_created = dirs, files_written = files1\<rparr>
        | Inr graph_data \<Rightarrow>
        let files2 = files1 @ [(output_dir @ ''/graph.json'', GraphJson graph_data)]
        in write_objects nodes_dir nds reverse_lookup dirs files2)"

section \<open>Auxiliary notions\<close>

text \<open>What an empty error list guarantees: every node has its required fields, every
  edge has a target that is the id of a node, and no id occurs twice.\<close>

definition well_formed :: "node list \<Rightarrow> bool" where
  "well_formed nodes \<longleftrightarrow>
     (\<forall>nd \<in> set nodes. n_id nd \<noteq> None \<and> n_label nd \<noteq> None \<and> n_type nd \<noteq> None
        \<and> n_app nd \<noteq> None \<and> n_owner nd \<noteq> None \<and> n_last_modified nd \<noteq> None
        \<and> (\<forall>e \<in> set (get_edges nd). \<exists>t. e_target e = Some t \<and> t \<in> set (node_ids nodes)))
     \<and> distinct (map n_id nodes)"

text \<open>The declared edges of a node list: \<open>(u, v)\<close> when a node with id \<open>u\<close> has an edge with
  target \<open>v\<close>.\<close>

definition node_edges :: "node list \<Rightarrow> (string \<times> string) set" where
  "node_edges nodes =
     {(u, v). \<exists>nd \<in> set nodes. n_id nd = Some u \<and> (\<exists>e \<in> set (get_edges nd). e_target e = Some v)}"

section \<open>Example inputs\<close>

text \<open>A complete node with the given id, type and edge targets; a node without targets
  has no \<open>edges\<close> key.\<close>

definition example_node :: "string \<Rightarrow> string \<Rightarrow> string list \<Rightarrow> node" where
  "example_node node_id ty targets =
     \<lparr>n_id = Some node_id, n_label = Some node_id, n_type = Some ty, n_app = Some ''search'',
      n_owner = Some ''admin'', n_last_modified = Some ''2024-01-01'', n_spl_code = None,
      n_edges = (if targets = [] then None else Some (map (\<lambda>t. \<lparr>e_target = Some t\<rparr>) targets))\<rparr>"

text \<open>The diamond \<open>A \<rightarrow> B, A \<rightarrow> C, B \<rightarrow> D, C \<rightarrow> D\<close>, with the edge \<open>A \<rightarrow> B\<close> declared twice, and
  a node \<open>E\<close> with no edge at all.\<close>

definition diamond :: "node list" where
  "diamond =
     [example_node ''a-x-macro'' ''macro'' [''b-x-macro'', ''c-x-macro'', ''b-x-macro''],
      example_node ''b-x-macro'' ''macro'' [''d-x-index''],
      example_node ''c-x-macro'' ''macro'' [''d-x-index''],
      example_node ''d-x-index'' ''index'' [],
      example_node ''e-x-index'' ''index'' []]"

section \<open>Correctness of the traversal\<close>

lemma for_body_edges_inv:
  "set (edges st) = visited_edges st \<Longrightarrow> set (edges (for_body d c n st)) = visited_edges (for_body d c n st)"
  by (auto simp: for_body_def Let_def)

lemma for_body_edges_distinct:
  "set (edges st) = visited_edges st \<Longrightarrow> distinct (edges st) \<Longrightarrow> distinct (edges (for_body d c n st))"
  by (auto simp: for_body_def Let_def)

lemma for_body_visited_edges:
  "visited_edges (for_body d c n st) = insert (oriented_edge d c n) (visited_edges st)"
  by (auto simp: for_body_def Let_def)

lemma fold_for_body_visited_edges:
  "visited_edges (fold (for_body d c) ns st) = visited_edges st \<union> oriented_edge d c ` set ns"
  by (induction ns arbitrary: st) (auto simp: for_body_visited_edges)

lemma fold_for_body_edges:
  "set (edges st) = visited_edges st \<Longrightarrow> distinct (edges st) \<Longrightarrow>
   set (edges (fold (for_body d c) ns st)) = visited_edges (fold (for_body d c) ns st)
   \<and> distinct (edges (fold (for_body d c) ns st))"
  by (induction ns arbitrary: st) (simp_all add: for_body_edges_inv for_body_edges_distinct)

lemma for_body_queue:
  "queue (for_body d c n st) = queue st @ (if n \<in> visited_nodes st then [] else [n])"
  by (auto simp: for_body_def Let_def)

lemma for_body_visited: "visited_nodes (for_body d c n st) = insert n (visited_nodes st)"
  by (auto simp: for_body_def Let_def)

lemma fold_for_body_queue:
  "\<exists>new. queue (fold (for_body d c) ns st) = queue st @ new \<and> distinct new
         \<and> set new = set ns - visited_nodes st"
proof (induction ns arbitrary: st)
  case Nil
  then show ?case by simp
next
  case (Cons n ns)
  let ?st = "for_body d c n st"
  from Cons.IH[of ?st] obtain new where new:
    "queue (fold (for_body d c) ns ?st) = queue ?st @ new" "distinct new"
    "set new = set ns - visited_nodes ?st" by blast
  let ?new = "(if n \<in> visited_nodes st then [] else [n]) @ new"
  have "queue (fold (for_body d c) (n # ns) st) = queue st @ ?new"
    using new(1) by (simp add: for_body_queue)
  moreover have "distinct ?new" using new(2,3) by (simp add: for_body_visited)
  moreover have "set ?new = set (n # ns) - visited_nodes st"
    using new(3) by (auto simp: for_body_visited)
  ultimately show ?case by blast
qed

lemma bfs_inv_init: "bfs_inv adjacency d s (bfs_init s)"
  by (simp add: bfs_inv_def bfs_init_def)

lemma bfs_inv_step:
  assumes inv: "bfs_inv adjacency d s st" and q: "queue st \<noteq> []"
  shows "bfs_inv adjacency d s (while_body adjacency d st)"
proof -
  from q obtain c rest where qc: "queue st = c # rest" by (cases "queue st") auto
  let ?R = "adj_rel adjacency"
  let ?ns = "adj_get adjacency c"
  let ?st0 = "st\<lparr>queue := rest\<rparr>"
  let ?st' = "while_body adjacency d st"
  have st': "?st' = fold (for_body d c) ?ns ?st0"
    by (simp add: while_body_def qc)
  have v: "visited_nodes ?st' = visited_nodes st \<union> set ?ns"
    by (simp add: st' fold_for_body_visited)
  obtain new where new: "queue ?st' = rest @ new" "distinct new"
     "set new = set ?ns - visited_nodes st"
    using fold_for_body_queue[of d c ?ns ?st0] unfolding st' by auto
  have ve: "visited_edges ?st' = visited_edges st \<union> oriented_edge d c ` set ?ns"
    by (simp add: st' fold_for_body_visited_edges)
  from inv have i1: "s \<in> visited_nodes st" and i2: "set (queue st) \<subseteq> visited_nodes st"
    and i3: "distinct (queue st)" and i4: "visited_nodes st \<subseteq> ?R\<^sup>* `` {s}"
    and i5: "\<forall>u \<in> visited_nodes st - set (queue st). ?R `` {u} \<subseteq> visited_nodes st"
    and i6: "visited_edges st = {oriented_edge d u v | u v.
        u \<in> visited_nodes st - set (queue st) \<and> (u, v) \<in> ?R}"
    and i7: "set (edges st) = visited_edges st" and i8: "distinct (edges st)"
    by (simp_all add: bfs_inv_def)
  have cv: "c \<in> visited_nodes st" and cr: "c \<notin> set rest" and rv: "set rest \<subseteq> visited_nodes st"
    and dr: "distinct rest"
    using i2 i3 qc by auto
  have succ: "?R `` {c} = set ?ns" by (auto simp: adj_rel_def)
  have proc: "visited_nodes ?st' - set (queue ?st') = insert c (visited_nodes st - set (queue st))"
    using v new cv cr rv qc by auto
  have e: "set (edges ?st') = visited_edges ?st' \<and> distinct (edges ?st')"
    unfolding st' by (rule fold_for_body_edges) (simp_all add: i7 i8)
  have g1: "s \<in> visited_nodes ?st'" using v i1 by simp
  have g2: "set (queue ?st') \<subseteq> visited_nodes ?st'" using v new rv by auto
  have g3: "distinct (queue ?st')" using new dr rv by auto
  have g4: "visited_nodes ?st' \<subseteq> ?R\<^sup>* `` {s}"
  proof
    fix x assume "x \<in> visited_nodes ?st'"
    then consider "x \<in> visited_nodes st" | "x \<in> set ?ns" using v by auto
    then show "x \<in> ?R\<^sup>* `` {s}"
    proof cases
      case 1 then show ?thesis using i4 by auto
    next
      case 2
      then have "(c, x) \<in> ?R" by (simp add: adj_rel_def)
      moreover have "(s, c) \<in> ?R\<^sup>*" using i4 cv by auto
      ultimately show ?thesis by auto
    qed
  qed
  have g5: "\<forall>u \<in> visited_nodes ?st' - set (queue ?st'). ?R `` {u} \<subseteq> visited_nodes ?st'"
    unfolding proc using i5 succ v by auto
  have g6: "visited_edges ?st' = {oriented_edge d u v | u v.
        u \<in> visited_nodes ?st' - set (queue ?st') \<and> (u, v) \<in> ?R}"
    unfolding proc ve i6 using succ by auto
  show ?thesis
    unfolding bfs_inv_def using g1 g2 g3 g4 g5 g6 e by blast
qed

lemma bfs_while_inv:
  "bfs_inv adjacency d s st \<Longrightarrow>
   bfs_inv adjacency d s (bfs_while adjacency d st) \<and> queue (bfs_while adjacency d st) = []"
proof (induction adjacency d st rule: bfs_while.induct)
  case (1 adjacency direction st)
  show ?case
  proof (cases "queue st = []")
    case True
    then show ?thesis using "1.prems" by (simp add: bfs_while.simps)
  next
    case False
    then have "bfs_inv adjacency direction s (while_body adjacency direction st)"
      using "1.prems" by (simp add: bfs_inv_step)
    from "1.IH"[OF False this] show ?thesis
      using False by (simp add: bfs_while.simps[of adjacency direction st])
  qed
qed

lemma bfs_inv_final:
  assumes "bfs_inv adjacency d s st" "queue st = []"
  shows "visited_nodes st = (adj_rel adjacency)\<^sup>* `` {s}"
proof
  show "visited_nodes st \<subseteq> (adj_rel adjacency)\<^sup>* `` {s}" using assms by (simp add: bfs_inv_def)
  show "(adj_rel adjacency)\<^sup>* `` {s} \<subseteq> visited_nodes st"
  proof
    fix x assume "x \<in> (adj_rel adjacency)\<^sup>* `` {s}"
    then have "(s, x) \<in> (adj_rel adjacency)\<^sup>*" by simp
    then show "x \<in> visited_nodes st"
    proof (induction rule: rtrancl_induct)
      case base
      then show ?case using assms by (simp add: bfs_inv_def)
    next
      case (step y z)
      then show ?case using assms by (auto simp: bfs_inv_def)
    qed
  qed
qed

lemma set_collect_transitive_edges:
  "set (collect_transitive_edges s adjacency d) =
     {oriented_edge d u v | u v. (s, u) \<in> (adj_rel adjacency)\<^sup>* \<and> (u, v) \<in> adj_rel adjacency}"
proof -
  let ?st = "bfs_while adjacency d (bfs_init s)"
  have inv: "bfs_inv adjacency d s ?st" and q: "queue ?st = []"
    using bfs_while_inv[OF bfs_inv_init] by auto
  have "visited_nodes ?st = (adj_rel adjacency)\<^sup>* `` {s}" by (rule bfs_inv_final[OF inv q])
  moreover have "set (edges ?st) = {oriented_edge d u v | u v.
        u \<in> visited_nodes ?st - set (queue ?st) \<and> (u, v) \<in> adj_rel adjacency}"
    using inv by (simp add: bfs_inv_def)
  ultimately show ?thesis by (simp add: collect_transitive_edges_def q)
qed

lemma distinct_collect_transitive_edges: "distinct (collect_transitive_edges s adjacency d)"
  using bfs_while_inv[OF bfs_inv_init, of adjacency d s]
  by (simp add: collect_transitive_edges_def bfs_inv_def)

lemma while_body_unfold:
  "queue st = c # rest \<Longrightarrow>
   \<exists>new. queue (while_body adjacency d st) = rest @ new \<and> distinct new
         \<and> set new = set (adj_get adjacency c) - visited_nodes st
         \<and> visited_nodes (while_body adjacency d st) = visited_nodes st \<union> set (adj_get adjacency c)"
  using fold_for_body_queue[of d c "adj_get adjacency c" "st\<lparr>queue := rest\<rparr>"]
  by (auto simp: while_body_def fold_for_body_visited)

lemma while_body_visited_mono:
  "visited_nodes st \<subseteq> visited_nodes (while_body adjacency d st)"
proof (cases "queue st")
  case Nil
  then show ?thesis by (simp add: while_body_def)
next
  case (Cons c rest)
  from while_body_unfold[OF this, of adjacency d] show ?thesis by auto
qed

lemma while_body_visited_bound:
  "visited_nodes (while_body adjacency d st) \<subseteq> visited_nodes st \<union> adj_nodes adjacency"
proof (cases "queue st")
  case Nil
  then show ?thesis by (simp add: while_body_def)
next
  case (Cons c rest)
  from while_body_unfold[OF this, of adjacency d] adj_get_subset_nodes[of adjacency c]
  show ?thesis by auto
qed

lemma funpow_visited_bound:
  "visited_nodes ((while_body adjacency d ^^ k) (bfs_init s)) \<subseteq> insert s (adj_nodes adjacency)"
proof (induction k)
  case 0
  then show ?case by (simp add: bfs_init_def)
next
  case (Suc k)
  then show ?case
    using while_body_visited_bound[of adjacency d "(while_body adjacency d ^^ k) (bfs_init s)"]
    by auto
qed

lemma enq_log_fresh:
  "distinct (enq_log adjacency d k st) \<and> set (enq_log adjacency d k st) \<inter> visited_nodes st = {}"
proof (induction k arbitrary: st)
  case 0
  then show ?case by simp
next
  case (Suc k)
  show ?case
  proof (cases "queue st")
    case Nil
    then show ?thesis by simp
  next
    case (Cons c rest)
    let ?st' = "while_body adjacency d st"
    from while_body_unfold[OF Cons, of adjacency d] obtain new where new:
      "queue ?st' = rest @ new" "distinct new"
      "set new = set (adj_get adjacency c) - visited_nodes st"
      "visited_nodes ?st' = visited_nodes st \<union> set (adj_get adjacency c)" by blast
    from Suc.IH[of ?st'] have ih: "distinct (enq_log adjacency d k ?st')"
      "set (enq_log adjacency d k ?st') \<inter> visited_nodes ?st' = {}" by auto
    have log: "enq_log adjacency d (Suc k) st = new @ enq_log adjacency d k ?st'"
      by (simp add: Cons new(1))
    have "set new \<subseteq> visited_nodes ?st'" using new(3,4) by auto
    then have "set new \<inter> set (enq_log adjacency d k ?st') = {}" using ih(2) by auto
    moreover have "set new \<inter> visited_nodes st = {}" using new(3) by auto
    moreover have "set (enq_log adjacency d k ?st') \<inter> visited_nodes st = {}"
      using ih(2) new(4) by auto
    ultimately show ?thesis unfolding log using new(2) ih(1) by auto
  qed
qed

lemma bfs_while_funpow:
  "\<exists>k. queue ((while_body adjacency d ^^ k) st) = []
     \<and> bfs_while adjacency d st = (while_body adjacency d ^^ k) st"
proof (induction adjacency d st rule: bfs_while.induct)
  case (1 adjacency direction st)
  show ?case
  proof (cases "queue st = []")
    case True
    then have "queue ((while_body adjacency direction ^^ 0) st) = []
       \<and> bfs_while adjacency direction st = (while_body adjacency direction ^^ 0) st"
      by (simp add: bfs_while.simps)
    then show ?thesis by blast
  next
    case False
    from "1.IH"[OF False] obtain k where k:
      "queue ((while_body adjacency direction ^^ k) (while_body adjacency direction st)) = []"
      "bfs_while adjacency direction (while_body adjacency direction st)
         = (while_body adjacency direction ^^ k) (while_body adjacency direction st)"
      by blast
    have "queue ((while_body adjacency direction ^^ Suc k) st) = []
       \<and> bfs_while adjacency direction st = (while_body adjacency direction ^^ Suc k) st"
      using k False by (simp add: funpow_swap1 bfs_while.simps[of adjacency direction st])
    then show ?thesis by blast
  qed
qed

lemma singleton_list: "distinct xs \<Longrightarrow> set xs = {a} \<Longrightarrow> xs = [a]"
  by (cases xs) (auto simp: subset_singleton_iff)

lemma self_loop_reach:
  assumes "set (adj_get adjacency N) = {N}" "(N, u) \<in> (adj_rel adjacency)\<^sup>*"
  shows "u = N"
  using assms(2) by (induction rule: rtrancl_induct) (use assms(1) in \<open>auto simp: adj_rel_def\<close>)

section \<open>Validation: what the error list holds\<close>

text \<open>\<open>split_on\<close> returns one part more than there are separators, and joining the parts with
  the separator gives the string back.\<close>

lemma split_on_nonempty: "split_on sep s \<noteq> []"
  by (induction s) (auto split: list.splits)

lemma length_split_on: "length (split_on sep s) = Suc (length (filter (\<lambda>c. c = sep) s))"
  by (induction s) (auto split: list.splits simp: split_on_nonempty)

lemma join_split_on: "concat (map (\<lambda>p. sep # p) (split_on sep s)) = sep # s"
  by (induction s) (auto split: list.splits simp: split_on_nonempty)

lemma enumerate_snoc: "enumerate 0 (xs @ [x]) = enumerate 0 xs @ [(length xs, x)]"
  by (simp add: enumerate_append_eq)

lemma validate_fold_snoc:
  "fold (validate_body A) (enumerate 0 (xs @ [x])) s
     = validate_body A (length xs, x) (fold (validate_body A) (enumerate 0 xs) s)"
  by (simp add: enumerate_snoc)

lemma node_ids_snoc: "set (node_ids (xs @ [x])) = set (node_ids xs) \<union> set_option (n_id x)"
  by (auto simp: node_ids_def List.map_filter_def)

lemma node_ids_iff: "a \<in> set (node_ids xs) \<longleftrightarrow> (\<exists>nd \<in> set xs. n_id nd = Some a)"
  by (induction xs) (auto simp: node_ids_def List.map_filter_def)

lemma body_fst: "fst (validate_body A (n, x) (seen, errs)) = seen \<union> set_option (n_id x)"
  by (auto simp: validate_body_def Let_def split: option.splits)

lemma body_missing:
  "MissingField i f \<in> set (snd (validate_body A (n, x) (seen, errs))) \<longleftrightarrow>
     MissingField i f \<in> set errs \<or> (i = n \<and> f \<in> set required_fields \<and> \<not> has_field x f)"
  by (auto simp: validate_body_def Let_def missing_field_errors_def edge_errors_def
      split: option.splits if_splits)

lemma body_duplicate:
  "DuplicateId a \<in> set (snd (validate_body A (n, x) (seen, errs))) \<longleftrightarrow>
     DuplicateId a \<in> set errs \<or> (n_id x = Some a \<and> a \<in> seen)"
  by (auto simp: validate_body_def Let_def missing_field_errors_def edge_errors_def
      split: option.splits if_splits)

lemma body_format:
  "BadIdFormat a \<in> set (snd (validate_body A (n, x) (seen, errs))) \<longleftrightarrow>
     BadIdFormat a \<in> set errs \<or> (n_id x = Some a \<and> \<not> validate_id_format a)"
  by (auto simp: validate_body_def Let_def missing_field_errors_def edge_errors_def
      split: option.splits if_splits)

lemma body_type:
  "InvalidType a t \<in> set (snd (validate_body A (n, x) (seen, errs))) \<longleftrightarrow>
     InvalidType a t \<in> set errs \<or> (n_id x = Some a \<and> n_type x = Some t \<and> t \<notin> valid_types)"
  by (auto simp: validate_body_def Let_def missing_field_errors_def edge_errors_def
      split: option.splits if_splits)

lemma body_edge_missing:
  "EdgeMissingTarget a \<in> set (snd (validate_body A (n, x) (seen, errs))) \<longleftrightarrow>
     EdgeMissingTarget a \<in> set errs
     \<or> (n_id x = Some a \<and> (\<exists>e \<in> set (get_edges x). e_target e = None))"
  by (auto simp: validate_body_def Let_def missing_field_errors_def edge_errors_def
      split: option.splits if_splits)

lemma body_dangling:
  "NonExistentTarget a t \<in> set (snd (validate_body A (n, x) (seen, errs))) \<longleftrightarrow>
     NonExistentTarget a t \<in> set errs
     \<or> (n_id x = Some a \<and> (\<exists>e \<in> set (get_edges x). e_target e = Some t) \<and> t \<notin> A)"
  by (auto simp: validate_body_def Let_def missing_field_errors_def edge_errors_def
      split: option.splits if_splits)


lemma fold_fst:
  "fst (fold (validate_body A) (enumerate 0 xs) ({}, [])) = set (node_ids xs)"
proof (induction xs rule: rev_induct)
  case Nil
  then show ?case by (simp add: node_ids_def List.map_filter_def)
next
  case (snoc x xs)
  obtain seen errs where s: "fold (validate_body A) (enumerate 0 xs) ({}, []) = (seen, errs)"
    by (cases "fold (validate_body A) (enumerate 0 xs) ({}, [])")
  with snoc show ?case
    by (simp add: validate_fold_snoc body_fst node_ids_snoc)
qed

lemma nth_snoc_ex:
  "(i < length (xs @ [x]) \<and> P ((xs @ [x]) ! i)) \<longleftrightarrow> (i < length xs \<and> P (xs ! i)) \<or> (i = length xs \<and> P x)"
  by (auto simp: nth_append less_Suc_eq)

lemma fold_missing:
  "MissingField i f \<in> set (snd (fold (validate_body A) (enumerate 0 xs) ({}, []))) \<longleftrightarrow>
     i < length xs \<and> f \<in> set required_fields \<and> \<not> has_field (xs ! i) f"
proof (induction xs rule: rev_induct)
  case Nil
  then show ?case by simp
next
  case (snoc x xs)
  obtain seen errs where s: "fold (validate_body A) (enumerate 0 xs) ({}, []) = (seen, errs)"
    by (cases "fold (validate_body A) (enumerate 0 xs) ({}, [])")
  have "MissingField i f \<in> set (snd (fold (validate_body A) (enumerate 0 (xs @ [x])) ({}, [])))
      \<longleftrightarrow> (i < length xs \<and> f \<in> set required_fields \<and> \<not> has_field (xs ! i) f)
          \<or> (i = length xs \<and> f \<in> set required_fields \<and> \<not> has_field x f)"
    using snoc s by (simp add: validate_fold_snoc body_missing)
  also have "\<dots> \<longleftrightarrow> i < length (xs @ [x]) \<and> f \<in> set required_fields \<and> \<not> has_field ((xs @ [x]) ! i) f"
    using nth_snoc_ex[of i xs x "\<lambda>nd. f \<in> set required_fields \<and> \<not> has_field nd f"] by blast
  finally show ?case .
qed

lemma fold_duplicate:
  "DuplicateId a \<in> set (snd (fold (validate_body A) (enumerate 0 xs) ({}, []))) \<longleftrightarrow>
     (\<exists>i j. j < i \<and> i < length xs \<and> n_id (xs ! i) = Some a \<and> n_id (xs ! j) = Some a)"
proof (induction xs rule: rev_induct)
  case Nil
  then show ?case by simp
next
  case (snoc x xs)
  obtain seen errs where s: "fold (validate_body A) (enumerate 0 xs) ({}, []) = (seen, errs)"
    by (cases "fold (validate_body A) (enumerate 0 xs) ({}, [])")
  have seen: "seen = set (node_ids xs)" using fold_fst[of A xs] s by simp
  have in_ids: "a \<in> set (node_ids xs) \<longleftrightarrow> (\<exists>j < length xs. n_id (xs ! j) = Some a)"
    unfolding node_ids_iff by (metis in_set_conv_nth)
  have "DuplicateId a \<in> set (snd (fold (validate_body A) (enumerate 0 (xs @ [x])) ({}, [])))
      \<longleftrightarrow> (\<exists>i j. j < i \<and> i < length xs \<and> n_id (xs ! i) = Some a \<and> n_id (xs ! j) = Some a)
          \<or> (n_id x = Some a \<and> (\<exists>j < length xs. n_id (xs ! j) = Some a))"
    using snoc s seen in_ids by (simp add: validate_fold_snoc body_duplicate)
  also have "\<dots> \<longleftrightarrow> (\<exists>i j. j < i \<and> i < length (xs @ [x]) \<and> n_id ((xs @ [x]) ! i) = Some a
                          \<and> n_id ((xs @ [x]) ! j) = Some a)"
    (is "?L \<longleftrightarrow> ?R")
  proof
    assume ?L
    then show ?R
    proof
      assume "\<exists>i j. j < i \<and> i < length xs \<and> n_id (xs ! i) = Some a \<and> n_id (xs ! j) = Some a"
      then obtain i j where "j < i" "i < length xs" "n_id (xs ! i) = Some a" "n_id (xs ! j) = Some a"
        by blast
      then have "j < i \<and> i < length (xs @ [x]) \<and> n_id ((xs @ [x]) ! i) = Some a
                          \<and> n_id ((xs @ [x]) ! j) = Some a"
        by (simp add: nth_append)
      then show ?R by blast
    next
      assume "n_id x = Some a \<and> (\<exists>j < length xs. n_id (xs ! j) = Some a)"
      then obtain j where "n_id x = Some a" "j < length xs" "n_id (xs ! j) = Some a" by blast
      then have "j < length xs \<and> length xs < length (xs @ [x]) \<and> n_id ((xs @ [x]) ! length xs) = Some a
                          \<and> n_id ((xs @ [x]) ! j) = Some a"
        by (simp add: nth_append)
      then show ?R by blast
    qed
  next
    assume ?R
    then obtain i j where ij: "j < i" "i < length (xs @ [x])" "n_id ((xs @ [x]) ! i) = Some a"
        "n_id ((xs @ [x]) ! j) = Some a" by blast
    show ?L
    proof (cases "i < length xs")
      case True
      with ij have "j < i \<and> i < length xs \<and> n_id (xs ! i) = Some a \<and> n_id (xs ! j) = Some a"
        by (simp add: nth_append)
      then show ?thesis by blast
    next
      case False
      with ij have "i = length xs" by simp
      with ij have "n_id x = Some a \<and> j < length xs \<and> n_id (xs ! j) = Some a"
        by (simp add: nth_append)
      then show ?thesis by blast
    qed
  qed
  finally show ?case .
qed

lemma fold_format:
  "BadIdFormat a \<in> set (snd (fold (validate_body A) (enumerate 0 xs) ({}, []))) \<longleftrightarrow>
     a \<in> set (node_ids xs) \<and> \<not> validate_id_format a"
proof (induction xs rule: rev_induct)
  case Nil
  then show ?case by (simp add: node_ids_def List.map_filter_def)
next
  case (snoc x xs)
  obtain seen errs where s: "fold (validate_body A) (enumerate 0 xs) ({}, []) = (seen, errs)"
    by (cases "fold (validate_body A) (enumerate 0 xs) ({}, [])")
  show ?case using snoc s
    by (auto simp: validate_fold_snoc body_format node_ids_snoc)
qed

lemma fold_type:
  "InvalidType a t \<in> set (snd (fold (validate_body A) (enumerate 0 xs) ({}, []))) \<longleftrightarrow>
     (\<exists>nd \<in> set xs. n_id nd = Some a \<and> n_type nd = Some t \<and> t \<notin> valid_types)"
proof (induction xs rule: rev_induct)
  case Nil
  then show ?case by simp
next
  case (snoc x xs)
  obtain seen errs where s: "fold (validate_body A) (enumerate 0 xs) ({}, []) = (seen, errs)"
    by (cases "fold (validate_body A) (enumerate 0 xs) ({}, [])")
  show ?case using snoc s
    by (auto simp: validate_fold_snoc body_type)
qed

lemma fold_edge_missing:
  "EdgeMissingTarget a \<in> set (snd (fold (validate_body A) (enumerate 0 xs) ({}, []))) \<longleftrightarrow>
     (\<exists>nd \<in> set xs. n_id nd = Some a \<and> (\<exists>e \<in> set (get_edges nd). e_target e = None))"
proof (induction xs rule: rev_induct)
  case Nil
  then show ?case by simp
next
  case (snoc x xs)
  obtain seen errs where s: "fold (validate_body A) (enumerate 0 xs) ({}, []) = (seen, errs)"
    by (cases "fold (validate_body A) (enumerate 0 xs) ({}, [])")
  show ?case using snoc s
    by (auto simp: validate_fold_snoc body_edge_missing)
qed

lemma fold_dangling:
  "NonExistentTarget a t \<in> set (snd (fold (validate_body A) (enumerate 0 xs) ({}, []))) \<longleftrightarrow>
     (\<exists>nd \<in> set xs. n_id nd = Some a \<and> (\<exists>e \<in> set (get_edges nd). e_target e = Some t) \<and> t \<notin> A)"
proof (induction xs rule: rev_induct)
  case Nil
  then show ?case by simp
next
  case (snoc x xs)
  obtain seen errs where s: "fold (validate_body A) (enumerate 0 xs) ({}, []) = (seen, errs)"
    by (cases "fold (validate_body A) (enumerate 0 xs) ({}, [])")
  show ?case using snoc s
    by (auto simp: validate_fold_snoc body_dangling)
qed

lemma validate_nodes_snd:
  "validate_nodes nodes = snd (fold (validate_body (set (node_ids nodes))) (enumerate 0 nodes) ({}, []))"
  by (simp add: validate_nodes_def)

lemma validated_fields:
  assumes "validate_nodes nodes = []" "nd \<in> set nodes" "f \<in> set required_fields"
  shows "has_field nd f"
proof (rule ccontr)
  assume nf: "\<not> has_field nd f"
  from assms(2) obtain i where i: "i < length nodes" "nodes ! i = nd"
    by (auto simp: in_set_conv_nth)
  then have "MissingField i f \<in> set (validate_nodes nodes)"
    unfolding validate_nodes_snd fold_missing using assms(3) nf by simp
  with assms(1) show False by simp
qed

lemma validated_targets:
  assumes "validate_nodes nodes = []" "nd \<in> set nodes" "e \<in> set (get_edges nd)"
  shows "\<exists>t. e_target e = Some t \<and> t \<in> set (node_ids nodes)"
proof -
  have "has_field nd ''id''" using validated_fields[OF assms(1,2)] by (simp add: required_fields_def)
  then obtain a where a: "n_id nd = Some a" by (auto simp: has_field_def)
  show ?thesis
  proof (cases "e_target e")
    case None
    then have "EdgeMissingTarget a \<in> set (validate_nodes nodes)"
      unfolding validate_nodes_snd fold_edge_missing using assms(2,3) a by blast
    with assms(1) show ?thesis by simp
  next
    case (Some t)
    show ?thesis
    proof (rule ccontr)
      assume "\<not> ?thesis"
      then have "t \<notin> set (node_ids nodes)" using Some by simp
      then have "NonExistentTarget a t \<in> set (validate_nodes nodes)"
        unfolding validate_nodes_snd fold_dangling using assms(2,3) a Some by blast
      with assms(1) show False by simp
    qed
  qed
qed

lemma validated_distinct:
  assumes "validate_nodes nodes = []"
  shows "distinct (map n_id nodes)"
proof (rule ccontr)
  assume "\<not> distinct (map n_id nodes)"
  then obtain i j where ij: "i < length nodes" "j < length nodes" "i \<noteq> j"
      "n_id (nodes ! i) = n_id (nodes ! j)"
    by (auto simp: distinct_conv_nth)
  have "has_field (nodes ! i) ''id''"
    using validated_fields[OF assms, of "nodes ! i" "''id''"] ij(1)
    by (simp add: required_fields_def)
  then obtain a where a: "n_id (nodes ! i) = Some a" by (auto simp: has_field_def)
  have "\<exists>i j. j < i \<and> i < length nodes \<and> n_id (nodes ! i) = Some a \<and> n_id (nodes ! j) = Some a"
  proof (cases "i < j")
    case True
    then have "i < j \<and> j < length nodes \<and> n_id (nodes ! j) = Some a \<and> n_id (nodes ! i) = Some a"
      using ij a by simp
    then show ?thesis by blast
  next
    case False
    then have "j < i \<and> i < length nodes \<and> n_id (nodes ! i) = Some a \<and> n_id (nodes ! j) = Some a"
      using ij a by simp
    then show ?thesis by blast
  qed
  then have "DuplicateId a \<in> set (validate_nodes nodes)"
    unfolding validate_nodes_snd fold_duplicate .
  with assms show False by simp
qed

lemma validated_well_formed:
  assumes "validate_nodes nodes = []"
  shows "well_formed nodes"
proof -
  have f: "\<And>nd f. nd \<in> set nodes \<Longrightarrow> f \<in> set required_fields \<Longrightarrow> has_field nd f"
    using validated_fields[OF assms] by blast
  have "\<And>nd. nd \<in> set nodes \<Longrightarrow> n_id nd \<noteq> None \<and> n_label nd \<noteq> None \<and> n_type nd \<noteq> None
        \<and> n_app nd \<noteq> None \<and> n_owner nd \<noteq> None \<and> n_last_modified nd \<noteq> None"
  proof -
    fix nd assume nd: "nd \<in> set nodes"
    have "has_field nd ''id''" "has_field nd ''label''" "has_field nd ''type''"
      "has_field nd ''app''" "has_field nd ''owner''" "has_field nd ''last_modified''"
      using f[OF nd] by (simp_all add: required_fields_def)
    then show "n_id nd \<noteq> None \<and> n_label nd \<noteq> None \<and> n_type nd \<noteq> None
        \<and> n_app nd \<noteq> None \<and> n_owner nd \<noteq> None \<and> n_last_modified nd \<noteq> None"
      by (simp add: has_field_def)
  qed
  then show ?thesis
    unfolding well_formed_def
    using validated_targets[OF assms] validated_distinct[OF assms] by blast
qed

section \<open>The graph builder\<close>

lemma adj_get_update:
  "adj_get (AList.update k v d) k' = (if k' = k then v else adj_get d k')"
  by (simp add: adj_get_def update_conv')

lemma adj_rel_dict_append: "adj_rel (dict_append d k x) = insert (k, x) (adj_rel d)"
  by (auto simp: adj_rel_def dict_append_def adj_get_update split: if_splits)

lemma adj_get_ensure_key: "adj_get (ensure_key d k) k' = adj_get d k'"
  by (cases "k' = k") (simp_all add: ensure_key_def adj_get_def update_conv')

lemma adj_rel_ensure_key: "adj_rel (ensure_key d k) = adj_rel d"
  by (simp add: adj_rel_def adj_get_ensure_key)

lemma adj_rel_Nil: "adj_rel [] = {}"
  by (simp add: adj_rel_def adj_get_def)

lemma add_edges_ok:
  "\<forall>e \<in> set es. e_target e \<noteq> None \<Longrightarrow>
   \<exists>out' inc'. add_edges a es (out, inc) = Inr (out', inc')
     \<and> adj_rel out' = adj_rel out \<union> {(a, v) | v. \<exists>e \<in> set es. e_target e = Some v}
     \<and> adj_rel inc' = adj_rel inc \<union> {(v, a) | v. \<exists>e \<in> set es. e_target e = Some v}"
proof (induction es arbitrary: out inc)
  case Nil
  then show ?case by simp
next
  case (Cons e es)
  from Cons.prems obtain t where t: "e_target e = Some t" by auto
  from Cons.prems have "\<forall>e \<in> set es. e_target e \<noteq> None" by simp
  from Cons.IH[OF this, of "dict_append out a t" "dict_append inc t a"]
  obtain out' inc' where r:
    "add_edges a es (dict_append out a t, dict_append inc t a) = Inr (out', inc')"
    "adj_rel out' = adj_rel (dict_append out a t) \<union> {(a, v) | v. \<exists>e \<in> set es. e_target e = Some v}"
    "adj_rel inc' = adj_rel (dict_append inc t a) \<union> {(v, a) | v. \<exists>e \<in> set es. e_target e = Some v}"
    by (elim exE conjE) (rule that)
  have 1: "add_edges a (e # es) (out, inc) = Inr (out', inc')"
    using r(1) t by (simp add: and_then_def subscript_def)
  have 2: "adj_rel out' = adj_rel out \<union> {(a, v) | v. \<exists>e' \<in> set (e # es). e_target e' = Some v}"
    unfolding r(2) adj_rel_dict_append using t by auto
  have 3: "adj_rel inc' = adj_rel inc \<union> {(v, a) | v. \<exists>e' \<in> set (e # es). e_target e' = Some v}"
    unfolding r(3) adj_rel_dict_append using t by auto
  from 1 2 3 show ?case by (intro exI conjI)
qed

lemma node_edges_Cons:
  "n_id nd = Some a \<Longrightarrow>
   node_edges (nd # nds) = {(a, v) | v. \<exists>e \<in> set (get_edges nd). e_target e = Some v} \<union> node_edges nds"
  by (auto simp: node_edges_def)

lemma build_loop_ok:
  "\<forall>nd \<in> set nds. n_id nd \<noteq> None \<and> (\<forall>e \<in> set (get_edges nd). e_target e \<noteq> None) \<Longrightarrow>
   \<exists>out' inc'. build_loop nds (out, inc) = Inr (out', inc')
     \<and> adj_rel out' = adj_rel out \<union> node_edges nds
     \<and> adj_rel inc' = adj_rel inc \<union> (node_edges nds)\<inverse>"
proof (induction nds arbitrary: out inc)
  case Nil
  then show ?case by (simp add: node_edges_def)
next
  case (Cons nd nds)
  from Cons.prems obtain a where a: "n_id nd = Some a" by auto
  from Cons.prems have es: "\<forall>e \<in> set (get_edges nd). e_target e \<noteq> None" by simp
  from add_edges_ok[OF es, of a "ensure_key out a" "ensure_key inc a"]
  obtain out1 inc1 where r1:
    "add_edges a (get_edges nd) (ensure_key out a, ensure_key inc a) = Inr (out1, inc1)"
    "adj_rel out1 = adj_rel out \<union> {(a, v) | v. \<exists>e \<in> set (get_edges nd). e_target e = Some v}"
    "adj_rel inc1 = adj_rel inc \<union> {(v, a) | v. \<exists>e \<in> set (get_edges nd). e_target e = Some v}"
    unfolding adj_rel_ensure_key by (elim exE conjE) (rule that)
  from Cons.prems have "\<forall>nd \<in> set nds. n_id nd \<noteq> None \<and> (\<forall>e \<in> set (get_edges nd). e_target e \<noteq> None)"
    by simp
  from Cons.IH[OF this, of out1 inc1] obtain out' inc' where r2:
    "build_loop nds (out1, inc1) = Inr (out', inc')"
    "adj_rel out' = adj_rel out1 \<union> node_edges nds"
    "adj_rel inc' = adj_rel inc1 \<union> (node_edges nds)\<inverse>"
    by (elim exE conjE) (rule that)
  have 1: "build_loop (nd # nds) (out, inc) = Inr (out', inc')"
    using a r1(1) r2(1) by (simp add: and_then_def subscript_def)
  have 2: "adj_rel out' = adj_rel out \<union> node_edges (nd # nds)"
    unfolding r2(2) r1(2) node_edges_Cons[OF a] by auto
  have 3: "adj_rel inc' = adj_rel inc \<union> (node_edges (nd # nds))\<inverse>"
    unfolding r2(3) r1(3) node_edges_Cons[OF a] by auto
  from 1 2 3 show ?case by (intro exI conjI)
qed

lemma build_graph_structures_ok:
  assumes "well_formed nodes"
  shows "\<exists>outgoing incoming. build_graph_structures nodes = Inr (outgoing, incoming)
     \<and> adj_rel outgoing = node_edges nodes \<and> adj_rel incoming = (node_edges nodes)\<inverse>"
proof -
  have "\<forall>nd \<in> set nodes. n_id nd \<noteq> None \<and> (\<forall>e \<in> set (get_edges nd). e_target e \<noteq> None)"
    using assms unfolding well_formed_def by fastforce
  from build_loop_ok[OF this, of "[]" "[]"] show ?thesis
    by (simp add: build_graph_structures_def adj_rel_Nil)
qed

section \<open>The reverse-reference index\<close>

lemma reverse_init_ok:
  "\<forall>nd \<in> set nds. n_id nd \<noteq> None \<Longrightarrow>
   \<exists>rl'. reverse_init nds rl = Inr rl'
     \<and> (\<forall>k. map_of rl' k = (if k \<in> set (node_ids nds) then Some {} else map_of rl k))"
proof (induction nds arbitrary: rl)
  case Nil
  then show ?case by (simp add: node_ids_def List.map_filter_def)
next
  case (Cons nd nds)
  from Cons.prems obtain a where a: "n_id nd = Some a" by auto
  from Cons.prems have "\<forall>nd \<in> set nds. n_id nd \<noteq> None" by simp
  from Cons.IH[OF this, of "AList.update a {} rl"] obtain rl' where r:
    "reverse_init nds (AList.update a {} rl) = Inr rl'"
    "\<forall>k. map_of rl' k = (if k \<in> set (node_ids nds) then Some {}
                           else map_of (AList.update a {} rl) k)"
    by (elim exE conjE) (rule that)
  have 1: "reverse_init (nd # nds) rl = Inr rl'"
    using a r(1) by (simp add: and_then_def subscript_def)
  have ids: "set (node_ids (nd # nds)) = insert a (set (node_ids nds))"
    using a by (auto simp: node_ids_iff)
  have 2: "\<forall>k. map_of rl' k = (if k \<in> set (node_ids (nd # nds)) then Some {} else map_of rl k)"
    unfolding ids using r(2) by (simp add: update_conv')
  from 1 2 show ?case by (intro exI conjI)
qed

lemma add_referrer_ok:
  "\<forall>e \<in> set es. e_target e \<noteq> None \<Longrightarrow>
   \<exists>rl'. add_referrer a es rl = Inr rl'
     \<and> (\<forall>k. map_of rl' k =
          (case map_of rl k of
             None \<Rightarrow> None
           | Some s \<Rightarrow> Some (s \<union> {a'. a' = a \<and> (\<exists>e \<in> set es. e_target e = Some k)})))"
proof (induction es arbitrary: rl)
  case Nil
  then show ?case by (auto split: option.splits)
next
  case (Cons e es)
  from Cons.prems obtain t where t: "e_target e = Some t" by auto
  let ?rl1 = "(case map_of rl t of None \<Rightarrow> rl
               | Some referrers \<Rightarrow> AList.update t (insert a referrers) rl)"
  from Cons.prems have "\<forall>e \<in> set es. e_target e \<noteq> None" by simp
  from Cons.IH[OF this, of ?rl1] obtain rl' where r:
    "add_referrer a es ?rl1 = Inr rl'"
    "\<forall>k. map_of rl' k =
          (case map_of ?rl1 k of
             None \<Rightarrow> None
           | Some s \<Rightarrow> Some (s \<union> {a'. a' = a \<and> (\<exists>e \<in> set es. e_target e = Some k)}))"
    by (elim exE conjE) (rule that)
  have 1: "add_referrer a (e # es) rl = Inr rl'"
    using t r(1) by (simp add: and_then_def subscript_def)
  have m: "\<And>k. map_of ?rl1 k =
       (case map_of rl k of None \<Rightarrow> None
        | Some s \<Rightarrow> Some (if k = t then insert a s else s))"
    by (auto simp: update_conv' split: option.splits)
  have 2: "\<forall>k. map_of rl' k =
          (case map_of rl k of
             None \<Rightarrow> None
           | Some s \<Rightarrow> Some (s \<union> {a'. a' = a \<and> (\<exists>e' \<in> set (e # es). e_target e' = Some k)}))"
  proof
    fix k
    show "map_of rl' k =
          (case map_of rl k of
             None \<Rightarrow> None
           | Some s \<Rightarrow> Some (s \<union> {a'. a' = a \<and> (\<exists>e' \<in> set (e # es). e_target e' = Some k)}))"
      using r(2)[rule_format, of k] m[of k] t
      by (cases "map_of rl k") auto
  qed
  from 1 2 show ?case by (intro exI conjI)
qed

lemma reverse_loop_ok:
  "\<forall>nd \<in> set nds. n_id nd \<noteq> None \<and> (\<forall>e \<in> set (get_edges nd). e_target e \<noteq> None) \<Longrightarrow>
   \<exists>rl'. reverse_loop nds rl = Inr rl'
     \<and> (\<forall>k. map_of rl' k =
          (case map_of rl k of
             None \<Rightarrow> None
           | Some s \<Rightarrow> Some (s \<union> {a. (a, k) \<in> node_edges nds})))"
proof (induction nds arbitrary: rl)
  case Nil
  then show ?case by (auto simp: node_edges_def split: option.splits)
next
  case (Cons nd nds)
  from Cons.prems obtain a where a: "n_id nd = Some a" by auto
  from Cons.prems have es: "\<forall>e \<in> set (get_edges nd). e_target e \<noteq> None" by simp
  from add_referrer_ok[OF es, of a rl] obtain rl1 where r1:
    "add_referrer a (get_edges nd) rl = Inr rl1"
    "\<forall>k. map_of rl1 k =
          (case map_of rl k of
             None \<Rightarrow> None
           | Some s \<Rightarrow> Some (s \<union> {a'. a' = a \<and> (\<exists>e \<in> set (get_edges nd). e_target e = Some k)}))"
    by (elim exE conjE) (rule that)
  from Cons.prems
  have "\<forall>nd \<in> set nds. n_id nd \<noteq> None \<and> (\<forall>e \<in> set (get_edges nd). e_target e \<noteq> None)"
    by simp
  from Cons.IH[OF this, of rl1] obtain rl' where r2:
    "reverse_loop nds rl1 = Inr rl'"
    "\<forall>k. map_of rl' k =
          (case map_of rl1 k of
             None \<Rightarrow> None
           | Some s \<Rightarrow> Some (s \<union> {a. (a, k) \<in> node_edges nds}))"
    by (elim exE conjE) (rule that)
  have 1: "reverse_loop (nd # nds) rl = Inr rl'"
    using a r1(1) r2(1) by (simp add: and_then_def subscript_def)
  have 2: "\<forall>k. map_of rl' k =
          (case map_of rl k of
             None \<Rightarrow> None
           | Some s \<Rightarrow> Some (s \<union> {a. (a, k) \<in> node_edges (nd # nds)}))"
  proof
    fix k
    have "{a'. (a', k) \<in> node_edges (nd # nds)}
        = {a'. a' = a \<and> (\<exists>e \<in> set (get_edges nd). e_target e = Some k)}
          \<union> {a'. (a', k) \<in> node_edges nds}"
      unfolding node_edges_Cons[OF a] by auto
    then show "map_of rl' k =
          (case map_of rl k of
             None \<Rightarrow> None
           | Some s \<Rightarrow> Some (s \<union> {a. (a, k) \<in> node_edges (nd # nds)}))"
      using r2(2)[rule_format, of k] r1(2)[rule_format, of k]
      by (cases "map_of rl k") (simp_all add: Un_assoc)
  qed
  from 1 2 show ?case by (intro exI conjI)
qed

lemma build_reverse_lookup_ok:
  assumes "\<forall>nd \<in> set nodes. n_id nd \<noteq> None \<and> (\<forall>e \<in> set (get_edges nd). e_target e \<noteq> None)"
  shows "\<exists>rl. build_reverse_lookup nodes = Inr rl
     \<and> (\<forall>k. map_of rl k =
          (if k \<in> set (node_ids nodes) then Some {a. (a, k) \<in> node_edges nodes} else None))"
proof -
  from assms have "\<forall>nd \<in> set nodes. n_id nd \<noteq> None" by simp
  from reverse_init_ok[OF this, of "[]"] obtain rl0 where r0:
    "reverse_init nodes [] = Inr rl0"
    "\<forall>k. map_of rl0 k = (if k \<in> set (node_ids nodes) then Some {} else map_of [] k)"
    by (elim exE conjE) (rule that)
  from reverse_loop_ok[OF assms, of rl0] obtain rl where r:
    "reverse_loop nodes rl0 = Inr rl"
    "\<forall>k. map_of rl k =
          (case map_of rl0 k of
             None \<Rightarrow> None
           | Some s \<Rightarrow> Some (s \<union> {a. (a, k) \<in> node_edges nodes}))"
    by (elim exE conjE) (rule that)
  have 1: "build_reverse_lookup nodes = Inr rl"
    using r0(1) r(1) by (simp add: build_reverse_lookup_def and_then_def)
  have 2: "\<forall>k. map_of rl k =
          (if k \<in> set (node_ids nodes) then Some {a. (a, k) \<in> node_edges nodes} else None)"
    using r(2) r0(2) by simp
  from 1 2 show ?thesis by (intro exI conjI)
qed

section \<open>The index emitter\<close>

lemma index_loop_ok:
  "\<forall>nd \<in> set nds. n_id nd \<noteq> None \<and> n_label nd \<noteq> None \<and> n_type nd \<noteq> None
        \<and> n_app nd \<noteq> None \<and> n_owner nd \<noteq> None \<Longrightarrow>
   distinct (map n_id nds) \<Longrightarrow>
   \<exists>idx. index_loop nds rl index = Inr idx
     \<and> (\<forall>nd \<in> set nds. \<exists>r. map_of idx (the (n_id nd)) = Some r
            \<and> isolated r = (get_edges nd = [] \<and> \<not> has_incoming rl (the (n_id nd))))
     \<and> (\<forall>k. k \<notin> set (node_ids nds) \<longrightarrow> map_of idx k = map_of index k)"
proof (induction nds arbitrary: index)
  case Nil
  then show ?case by simp
next
  case (Cons nd nds)
  from Cons.prems(1) obtain a l t p w where f: "n_id nd = Some a" "n_label nd = Some l"
    "n_type nd = Some t" "n_app nd = Some p" "n_owner nd = Some w" by auto
  let ?r = "\<lparr>i_label = l, i_type = t, i_app = p, i_owner = w,
             isolated = (\<not> get_edges nd \<noteq> [] \<and> \<not> has_incoming rl a)\<rparr>"
  let ?index1 = "AList.update a ?r index"
  from Cons.prems have p: "\<forall>nd \<in> set nds. n_id nd \<noteq> None \<and> n_label nd \<noteq> None \<and> n_type nd \<noteq> None
        \<and> n_app nd \<noteq> None \<and> n_owner nd \<noteq> None" "distinct (map n_id nds)" by simp_all
  from Cons.IH[OF p, of ?index1] obtain idx where r:
    "index_loop nds rl ?index1 = Inr idx"
    "\<forall>nd \<in> set nds. \<exists>r. map_of idx (the (n_id nd)) = Some r
            \<and> isolated r = (get_edges nd = [] \<and> \<not> has_incoming rl (the (n_id nd)))"
    "\<forall>k. k \<notin> set (node_ids nds) \<longrightarrow> map_of idx k = map_of ?index1 k"
    by (elim exE conjE) (rule that)
  have 1: "index_loop (nd # nds) rl index = Inr idx"
    using f r(1) by (simp add: and_then_def subscript_def Let_def)
  have fresh: "a \<notin> set (node_ids nds)"
    using Cons.prems(2) f(1) by (force simp: node_ids_iff)
  then have "map_of idx a = Some ?r" using r(3) by (simp add: update_conv')
  then have here: "\<exists>r. map_of idx (the (n_id nd)) = Some r
            \<and> isolated r = (get_edges nd = [] \<and> \<not> has_incoming rl (the (n_id nd)))"
    using f(1) by simp
  have 2: "\<forall>nd' \<in> set (nd # nds). \<exists>r. map_of idx (the (n_id nd')) = Some r
            \<and> isolated r = (get_edges nd' = [] \<and> \<not> has_incoming rl (the (n_id nd')))"
    using here r(2) by simp
  have ids: "set (node_ids (nd # nds)) = insert a (set (node_ids nds))"
    using f(1) by (auto simp: node_ids_iff)
  have 3: "\<forall>k. k \<notin> set (node_ids (nd # nds)) \<longrightarrow> map_of idx k = map_of index k"
    unfolding ids using r(3) by (simp add: update_conv')
  from 1 2 3 show ?case by (intro exI conjI)
qed

section \<open>The graph emitter\<close>

lemma sort_iteration:
  assumes "set_iteration iter_order" "finite S"
  shows "sort (iter_order S) = sorted_list_of_set S"
proof -
  have s: "set (iter_order S) = S" and d: "distinct (iter_order S)"
    using assms by (simp_all add: set_iteration_def)
  have "sorted_list_of_set (set (iter_order S)) = sort (remdups (iter_order S))"
    by (rule sorted_list_of_set_sort_remdups)
  then show ?thesis using s d by (simp add: distinct_remdups_id)
qed

lemma pair_of_edge: "map (\<lambda>e. (source e, target e)) (map (\<lambda>(s, t). \<lparr>source = s, target = t\<rparr>) ps) = ps"
  by (induction ps) auto

lemma collect_all_pairs:
  assumes "set_iteration iter_order"
  shows "map (\<lambda>e. (source e, target e)) (collect_all_edges_for_node iter_order N outgoing incoming)
     = sorted_list_of_set (set (collect_transitive_edges N outgoing ''downstream'')
                           \<union> set (collect_transitive_edges N incoming ''upstream''))"
proof -
  have "finite (set (collect_transitive_edges N outgoing ''downstream'')
                \<union> set (collect_transitive_edges N incoming ''upstream''))" by simp
  from sort_iteration[OF assms this] show ?thesis
    unfolding collect_all_edges_for_node_def Let_def by (simp only: pair_of_edge Un_empty_left)
qed

lemma collect_all_iteration_independent:
  assumes "set_iteration en1" "set_iteration en2"
  shows "collect_all_edges_for_node en1 N outgoing incoming
       = collect_all_edges_for_node en2 N outgoing incoming"
proof -
  have f: "finite (set (collect_transitive_edges N outgoing ''downstream'')
                \<union> set (collect_transitive_edges N incoming ''upstream''))" by simp
  show ?thesis
    using sort_iteration[OF assms(1) f] sort_iteration[OF assms(2) f]
    by (simp add: collect_all_edges_for_node_def Let_def)
qed

lemma graph_loop_ok:
  "\<forall>nd \<in> set nds. n_id nd \<noteq> None \<and> n_label nd \<noteq> None \<and> n_type nd \<noteq> None
        \<and> n_app nd \<noteq> None \<and> n_owner nd \<noteq> None \<and> n_last_modified nd \<noteq> None \<Longrightarrow>
   \<exists>gs. graph_loop en nds outgoing incoming acc = Inr (acc @ gs)
     \<and> map g_id gs = node_ids nds
     \<and> (\<forall>g \<in> set gs. g_edges g = collect_all_edges_for_node en (g_id g) outgoing incoming)"
proof (induction nds arbitrary: acc)
  case Nil
  then show ?case by (simp add: node_ids_def List.map_filter_def)
next
  case (Cons nd nds)
  from Cons.prems obtain a l t p w m where f: "n_id nd = Some a" "n_label nd = Some l"
    "n_type nd = Some t" "n_app nd = Some p" "n_owner nd = Some w" "n_last_modified nd = Some m"
    by auto
  let ?g = "\<lparr>g_id = a, g_label = l, g_type = t, g_app = p, g_owner = w,
              g_last_modified = m,
              g_edges = collect_all_edges_for_node en a outgoing incoming\<rparr>"
  from Cons.prems have p: "\<forall>nd \<in> set nds. n_id nd \<noteq> None \<and> n_label nd \<noteq> None \<and> n_type nd \<noteq> None
        \<and> n_app nd \<noteq> None \<and> n_owner nd \<noteq> None \<and> n_last_modified nd \<noteq> None" by simp
  from Cons.IH[OF p, of "acc @ [?g]"] obtain gs where r:
    "graph_loop en nds outgoing incoming (acc @ [?g]) = Inr ((acc @ [?g]) @ gs)"
    "map g_id gs = node_ids nds"
    "\<forall>g \<in> set gs. g_edges g = collect_all_edges_for_node en (g_id g) outgoing incoming"
    by (elim exE conjE) (rule that)
  have 1: "graph_loop en (nd # nds) outgoing incoming acc = Inr (acc @ (?g # gs))"
    using f r(1) by (simp add: and_then_def subscript_def Let_def)
  have 2: "map g_id (?g # gs) = node_ids (nd # nds)"
    using f(1) r(2) by (simp add: node_ids_def List.map_filter_def)
  have 3: "\<forall>g \<in> set (?g # gs). g_edges g = collect_all_edges_for_node en (g_id g) outgoing incoming"
    using r(3) by simp
  from 1 2 3 show ?case by (intro exI conjI)
qed

lemma graph_loop_iteration_independent:
  assumes "set_iteration en1" "set_iteration en2"
  shows "graph_loop en1 nds outgoing incoming acc = graph_loop en2 nds outgoing incoming acc"
proof (induction nds arbitrary: acc)
  case Nil
  then show ?case by simp
next
  case (Cons nd nds)
  show ?case
    by (simp add: Cons.IH collect_all_iteration_independent[OF assms] Let_def
        cong: sum.case_cong)
qed

lemma generate_graph_json_iteration_independent:
  assumes "set_iteration en1" "set_iteration en2"
  shows "generate_graph_json en1 nds outgoing incoming = generate_graph_json en2 nds outgoing incoming"
  by (simp add: generate_graph_json_def graph_loop_iteration_independent[OF assms])

lemma closure_sets_in_edges:
  assumes "adj_rel outgoing = E" "adj_rel incoming = E\<inverse>"
  shows "set (collect_transitive_edges N outgoing ''downstream'')
           \<union> set (collect_transitive_edges N incoming ''upstream'')
         = {(u, v) \<in> E. (N, u) \<in> E\<^sup>* \<or> (v, N) \<in> E\<^sup>*}"
proof -
  have d: "set (collect_transitive_edges N outgoing ''downstream'')
             = {(u, v). (N, u) \<in> E\<^sup>* \<and> (u, v) \<in> E}"
    unfolding set_collect_transitive_edges assms by (auto simp: oriented_edge_def)
  have "set (collect_transitive_edges N incoming ''upstream'')
             = {(u, v). (N, v) \<in> (E\<inverse>)\<^sup>* \<and> (v, u) \<in> E\<inverse>}"
    unfolding set_collect_transitive_edges assms by (auto simp: oriented_edge_def)
  then have u: "set (collect_transitive_edges N incoming ''upstream'')
             = {(u, v). (v, N) \<in> E\<^sup>* \<and> (u, v) \<in> E}"
    by (simp add: rtrancl_converse)
  show ?thesis unfolding d u by auto
qed

section \<open>The claims\<close>

text \<open>
  C5. A node whose only edge is a self-loop: the closure computed from it (downstream, and
  in fact for either direction) is exactly the one pair \<open>(N, N)\<close>, once, also when the
  self-loop is declared several times.
\<close>

theorem self_loop_single_edge:
  "set (adj_get adjacency N) = {N} \<Longrightarrow> collect_transitive_edges N adjacency direction = [(N, N)]"
proof -
  assume a: "set (adj_get adjacency N) = {N}"
  have r: "\<And>u v. (N, u) \<in> (adj_rel adjacency)\<^sup>* \<Longrightarrow> (u, v) \<in> adj_rel adjacency \<Longrightarrow> u = N \<and> v = N"
  proof -
    fix u v assume "(N, u) \<in> (adj_rel adjacency)\<^sup>*" "(u, v) \<in> adj_rel adjacency"
    then have "u = N" "v \<in> set (adj_get adjacency u)"
      using self_loop_reach[OF a] by (simp_all add: adj_rel_def)
    then show "u = N \<and> v = N" using a by simp
  qed
  have n: "(N, N) \<in> adj_rel adjacency" using a by (simp add: adj_rel_def)
  have o: "oriented_edge direction N N = (N, N)" by (simp add: oriented_edge_def)
  have "set (collect_transitive_edges N adjacency direction) = {(N, N)}"
  proof (rule set_eqI, rule iffI)
    fix p assume "p \<in> set (collect_transitive_edges N adjacency direction)"
    then obtain u v where "p = oriented_edge direction u v" "(N, u) \<in> (adj_rel adjacency)\<^sup>*"
      "(u, v) \<in> adj_rel adjacency"
      unfolding set_collect_transitive_edges by blast
    then show "p \<in> {(N, N)}" using r o by auto
  next
    fix p assume "p \<in> {(N, N)}"
    then have "p = oriented_edge direction N N" using o by simp
    then show "p \<in> set (collect_transitive_edges N adjacency direction)"
      unfolding set_collect_transitive_edges using n by blast
  qed
  then show ?thesis by (rule singleton_list[OF distinct_collect_transitive_edges])
qed

theorem self_loop_single_edge_witness:
  "set (adj_get [(''B'', [''A'']), (''A'', [''A'', ''A''])] ''A'') = {''A''}
   \<and> collect_transitive_edges ''A'' [(''B'', [''A'']), (''A'', [''A'', ''A''])] ''downstream''
       = [(''A'', ''A'')]"
proof -
  have h: "set (adj_get [(''B'', [''A'']), (''A'', [''A'', ''A''])] ''A'') = {''A''}"
    by (simp add: adj_get_def)
  from self_loop_single_edge[OF h] h show ?thesis by simp
qed

text \<open>
  C2. Orientation. One pass of the inner loop records nothing or exactly the pair
  \<open>(current, neighbor)\<close> when the direction is \<open>downstream\<close> and \<open>(neighbor, current)\<close>
  when it is \<open>upstream\<close>, in whatever state the loop is. Hence every pair \<open>(a, b)\<close> of a
  downstream result has \<open>b\<close> listed under a reached node \<open>a\<close>, and every pair of an
  upstream result has \<open>a\<close> listed under a reached node \<open>b\<close>: over the incoming
  structure that is the edge's forward sense.
\<close>

theorem recorded_pairs_forward_oriented:
  "(edges (for_body ''downstream'' current neighbor st) = edges st
      \<or> edges (for_body ''downstream'' current neighbor st) = edges st @ [(current, neighbor)])
   \<and> (edges (for_body ''upstream'' current neighbor st) = edges st
      \<or> edges (for_body ''upstream'' current neighbor st) = edges st @ [(neighbor, current)])
   \<and> (\<forall>(a, b) \<in> set (collect_transitive_edges start adjacency ''downstream'').
         (start, a) \<in> (adj_rel adjacency)\<^sup>* \<and> b \<in> set (adj_get adjacency a))
   \<and> (\<forall>(a, b) \<in> set (collect_transitive_edges start adjacency ''upstream'').
         (start, b) \<in> (adj_rel adjacency)\<^sup>* \<and> a \<in> set (adj_get adjacency b))"
proof -
  have s1: "edges (for_body ''downstream'' current neighbor st) = edges st
      \<or> edges (for_body ''downstream'' current neighbor st) = edges st @ [(current, neighbor)]"
    by (simp add: for_body_def oriented_edge_def Let_def)
  have s2: "edges (for_body ''upstream'' current neighbor st) = edges st
      \<or> edges (for_body ''upstream'' current neighbor st) = edges st @ [(neighbor, current)]"
    by (simp add: for_body_def oriented_edge_def Let_def)
  have d: "\<forall>(a, b) \<in> set (collect_transitive_edges start adjacency ''downstream'').
         (start, a) \<in> (adj_rel adjacency)\<^sup>* \<and> b \<in> set (adj_get adjacency a)"
    unfolding set_collect_transitive_edges by (auto simp: oriented_edge_def adj_rel_def)
  have u: "\<forall>(a, b) \<in> set (collect_transitive_edges start adjacency ''upstream'').
         (start, b) \<in> (adj_rel adjacency)\<^sup>* \<and> a \<in> set (adj_get adjacency b)"
    unfolding set_collect_transitive_edges by (auto simp: oriented_edge_def adj_rel_def)
  from s1 s2 d u show ?thesis by blast
qed

theorem recorded_pairs_forward_oriented_witness:
  "(''B'', ''C'') \<in> set (collect_transitive_edges ''A''
       [(''A'', [''B'']), (''B'', [''C'']), (''C'', [])] ''downstream'')
   \<and> ''C'' \<in> set (adj_get [(''A'', [''B'']), (''B'', [''C'']), (''C'', [])] ''B'')
   \<and> (''A'', ''B'') \<in> set (collect_transitive_edges ''C''
       [(''A'', []), (''B'', [''A'']), (''C'', [''B''])] ''upstream'')
   \<and> ''A'' \<in> set (adj_get [(''A'', []), (''B'', [''A'']), (''C'', [''B''])] ''B'')"
proof -
  have m1: "(''B'', ''C'') \<in> set (collect_transitive_edges ''A''
       [(''A'', [''B'']), (''B'', [''C'']), (''C'', [])] ''downstream'')"
    by code_simp
  have m2: "(''A'', ''B'') \<in> set (collect_transitive_edges ''C''
       [(''A'', []), (''B'', [''A'']), (''C'', [''B''])] ''upstream'')"
    by code_simp
  from recorded_pairs_forward_oriented[of "''B''" "''C''" "bfs_init ''A''" "''A''"
      "[(''A'', [''B'']), (''B'', [''C'']), (''C'', [])]"] m1
  have c1: "''C'' \<in> set (adj_get [(''A'', [''B'']), (''B'', [''C'']), (''C'', [])] ''B'')"
    by blast
  from recorded_pairs_forward_oriented[of "''B''" "''C''" "bfs_init ''A''" "''C''"
      "[(''A'', []), (''B'', [''A'']), (''C'', [''B''])]"] m2
  have c2: "''A'' \<in> set (adj_get [(''A'', []), (''B'', [''A'']), (''C'', [''B''])] ''B'')"
    by blast
  from m1 m2 c1 c2 show ?thesis by blast
qed

text \<open>
  C3. Termination and bounds, for every adjacency structure (cycles and self-loops
  included) and every start node:
  \<^item> after some number \<open>k\<close> of iterations of the \<open>while\<close> body the queue is empty, and
    that state is what the loop returns;
  \<^item> the visited-node set never shrinks, in the inner loop and from one iteration to the
    next;
  \<^item> an iteration leaves the tail of the queue in place and appends behind it, and the
    start node together with all nodes ever appended form a list without repetition: no
    node is enqueued twice;
  \<^item> at every iteration the visited nodes are the start node or nodes occurring in the
    adjacency structure (as key or neighbor), so there are at most that many plus one.
\<close>

theorem bfs_terminates_bounded:
  "(\<exists>k. queue ((while_body adjacency direction ^^ k) (bfs_init start)) = []
       \<and> bfs_while adjacency direction (bfs_init start)
           = (while_body adjacency direction ^^ k) (bfs_init start))
   \<and> (\<forall>current neighbor st.
         visited_nodes st \<subseteq> visited_nodes (for_body direction current neighbor st))
   \<and> (\<forall>k. visited_nodes ((while_body adjacency direction ^^ k) (bfs_init start))
          \<subseteq> visited_nodes ((while_body adjacency direction ^^ Suc k) (bfs_init start)))
   \<and> (\<forall>st current rest.
         take (length rest) (queue (while_body adjacency direction (st\<lparr>queue := current # rest\<rparr>)))
           = rest)
   \<and> (\<forall>k. distinct (start # enq_log adjacency direction k (bfs_init start)))
   \<and> (\<forall>k. visited_nodes ((while_body adjacency direction ^^ k) (bfs_init start))
            \<subseteq> insert start (adj_nodes adjacency)
          \<and> card (visited_nodes ((while_body adjacency direction ^^ k) (bfs_init start)))
            \<le> card (adj_nodes adjacency) + 1)"
proof -
  have f: "\<forall>st current rest.
         take (length rest) (queue (while_body adjacency direction (st\<lparr>queue := current # rest\<rparr>)))
           = rest"
  proof (intro allI)
    fix st :: bfs_state and current :: string and rest :: "string list"
    have "queue (st\<lparr>queue := current # rest\<rparr>) = current # rest" by simp
    from while_body_unfold[OF this, of adjacency direction]
    show "take (length rest)
            (queue (while_body adjacency direction (st\<lparr>queue := current # rest\<rparr>))) = rest"
      by auto
  qed
  have t: "\<exists>k. queue ((while_body adjacency direction ^^ k) (bfs_init start)) = []
       \<and> bfs_while adjacency direction (bfs_init start)
           = (while_body adjacency direction ^^ k) (bfs_init start)"
    by (rule bfs_while_funpow)
  have m0: "\<forall>current neighbor st.
         visited_nodes st \<subseteq> visited_nodes (for_body direction current neighbor st)"
    by (auto simp: for_body_visited)
  have m: "\<forall>k. visited_nodes ((while_body adjacency direction ^^ k) (bfs_init start))
          \<subseteq> visited_nodes ((while_body adjacency direction ^^ Suc k) (bfs_init start))"
    using while_body_visited_mono by simp
  have e: "\<forall>k. distinct (start # enq_log adjacency direction k (bfs_init start))"
  proof
    fix k
    have "start \<in> visited_nodes (bfs_init start)" by (simp add: bfs_init_def)
    then show "distinct (start # enq_log adjacency direction k (bfs_init start))"
      using enq_log_fresh[of adjacency direction k "bfs_init start"] by auto
  qed
  have b: "\<forall>k. visited_nodes ((while_body adjacency direction ^^ k) (bfs_init start))
            \<subseteq> insert start (adj_nodes adjacency)
          \<and> card (visited_nodes ((while_body adjacency direction ^^ k) (bfs_init start)))
            \<le> card (adj_nodes adjacency) + 1"
  proof
    fix k
    let ?V = "visited_nodes ((while_body adjacency direction ^^ k) (bfs_init start))"
    have sub: "?V \<subseteq> insert start (adj_nodes adjacency)" by (rule funpow_visited_bound)
    have "card ?V \<le> card (insert start (adj_nodes adjacency))"
      by (rule card_mono) (simp_all add: finite_adj_nodes sub)
    also have "\<dots> \<le> card (adj_nodes adjacency) + 1"
      by (simp add: card_insert_if finite_adj_nodes)
    finally show "?V \<subseteq> insert start (adj_nodes adjacency) \<and> card ?V \<le> card (adj_nodes adjacency) + 1"
      using sub by simp
  qed
  from t m0 m f e b show ?thesis by (intro conjI)
qed

theorem bfs_terminates_bounded_witness:
  "queue ((while_body [(''A'', [''B'', ''A'']), (''B'', [''C'']), (''C'', [''A''])] ''downstream'' ^^ 3)
       (bfs_init ''A'')) = []
   \<and> enq_log [(''A'', [''B'', ''A'']), (''B'', [''C'']), (''C'', [''A''])] ''downstream'' 3
       (bfs_init ''A'') = [''B'', ''C'']
   \<and> distinct (''A'' # enq_log [(''A'', [''B'', ''A'']), (''B'', [''C'']), (''C'', [''A''])]
       ''downstream'' 3 (bfs_init ''A''))
   \<and> card (visited_nodes ((while_body [(''A'', [''B'', ''A'']), (''B'', [''C'']), (''C'', [''A''])]
       ''downstream'' ^^ 3) (bfs_init ''A'')))
       \<le> card (adj_nodes [(''A'', [''B'', ''A'']), (''B'', [''C'']), (''C'', [''A''])]) + 1"
proof -
  have q: "queue ((while_body [(''A'', [''B'', ''A'']), (''B'', [''C'']), (''C'', [''A''])] ''downstream'' ^^ 3)
       (bfs_init ''A'')) = []"
    by code_simp
  have l: "enq_log [(''A'', [''B'', ''A'']), (''B'', [''C'']), (''C'', [''A''])] ''downstream'' 3
       (bfs_init ''A'') = [''B'', ''C'']"
    by code_simp
  from bfs_terminates_bounded[of "[(''A'', [''B'', ''A'']), (''B'', [''C'']), (''C'', [''A''])]"
      "''downstream''" "''A''"] q l
  show ?thesis by blast
qed

text \<open>
  C1. For a validated node list and a node id \<open>N\<close> of it, the graph builder returns the
  two adjacency structures, and
  \<^item> the downstream closure of \<open>N\<close> over \<open>outgoing\<close> is, as a set, the set of the edges
    \<open>(u, v)\<close> of \<open>outgoing\<close> whose source \<open>u\<close> is reachable from \<open>N\<close> along \<open>outgoing\<close>
    (\<open>u = N\<close> included);
  \<^item> the upstream closure of \<open>N\<close> over \<open>incoming\<close> is the set of the pairs \<open>(u, v)\<close> with
    \<open>u\<close> listed under \<open>v\<close> in \<open>incoming\<close> and \<open>v\<close> reachable from \<open>N\<close> along \<open>incoming\<close>;
  \<^item> the edges of \<open>outgoing\<close> are the declared edges of the node list, and those of
    \<open>incoming\<close> are the same edges reversed.
\<close>

theorem closure_is_reachable_edges:
  assumes "validate_nodes nodes = []" and "N \<in> set (node_ids nodes)"
  shows "\<exists>outgoing incoming.
           build_graph_structures nodes = Inr (outgoing, incoming)
         \<and> set (collect_transitive_edges N outgoing ''downstream'')
             = {(u, v). (N, u) \<in> (adj_rel outgoing)\<^sup>* \<and> (u, v) \<in> adj_rel outgoing}
         \<and> set (collect_transitive_edges N incoming ''upstream'')
             = {(u, v). (N, v) \<in> (adj_rel incoming)\<^sup>* \<and> (v, u) \<in> adj_rel incoming}
         \<and> adj_rel outgoing = node_edges nodes
         \<and> adj_rel incoming = (node_edges nodes)\<inverse>"
proof -
  from build_graph_structures_ok[OF validated_well_formed[OF assms(1)]]
  obtain outgoing incoming where b: "build_graph_structures nodes = Inr (outgoing, incoming)"
    "adj_rel outgoing = node_edges nodes" "adj_rel incoming = (node_edges nodes)\<inverse>"
    by (elim exE conjE) (rule that)
  have d: "set (collect_transitive_edges N outgoing ''downstream'')
             = {(u, v). (N, u) \<in> (adj_rel outgoing)\<^sup>* \<and> (u, v) \<in> adj_rel outgoing}"
    unfolding set_collect_transitive_edges by (auto simp: oriented_edge_def)
  have u: "set (collect_transitive_edges N incoming ''upstream'')
             = {(u, v). (N, v) \<in> (adj_rel incoming)\<^sup>* \<and> (v, u) \<in> adj_rel incoming}"
    unfolding set_collect_transitive_edges by (auto simp: oriented_edge_def)
  from b d u show ?thesis by (intro exI conjI)
qed

theorem closure_is_reachable_edges_witness:
  "validate_nodes diamond = [] \<and> ''b-x-macro'' \<in> set (node_ids diamond)
   \<and> (\<exists>outgoing incoming.
           build_graph_structures diamond = Inr (outgoing, incoming)
         \<and> set (collect_transitive_edges ''b-x-macro'' outgoing ''downstream'')
             = {(u, v). (''b-x-macro'', u) \<in> (adj_rel outgoing)\<^sup>* \<and> (u, v) \<in> adj_rel outgoing}
         \<and> set (collect_transitive_edges ''b-x-macro'' incoming ''upstream'')
             = {(u, v). (''b-x-macro'', v) \<in> (adj_rel incoming)\<^sup>* \<and> (v, u) \<in> adj_rel incoming}
         \<and> adj_rel outgoing = node_edges diamond
         \<and> adj_rel incoming = (node_edges diamond)\<inverse>)"
proof -
  have h1: "validate_nodes diamond = []" by code_simp
  have h2: "''b-x-macro'' \<in> set (node_ids diamond)" by code_simp
  from h1 h2 closure_is_reachable_edges[OF h1 h2] show ?thesis by (intro conjI)
qed

text \<open>
  C6. The error list is complete: a violation is in the list returned by
  \<open>validate_nodes\<close> exactly when some node (for a dangling or missing edge target: some
  edge of some node) of the input commits it, wherever the node stands in the list and
  whatever precedes it:
  \<^item> a missing-field error for position \<open>i\<close> and each required field the node there lacks;
  \<^item> a duplicate-id error for an id that two positions carry;
  \<^item> a malformed-id error for an id with fewer than three hyphen-separated segments;
  \<^item> an invalid-type error for a node with an id whose type is not in the enumeration;
  \<^item> an error for an edge without target, or with a target that is no node's id, of a node
    with an id.
  Every error but the first kind needs the node to have an id: a node without id adds its
  missing-field errors to the list and nothing else, and leaves \<open>seen_ids\<close> as it was.
\<close>

theorem validate_nodes_complete:
  "(MissingField i field \<in> set (validate_nodes nodes) \<longleftrightarrow>
      i < length nodes \<and> field \<in> set required_fields \<and> \<not> has_field (nodes ! i) field)
   \<and> (DuplicateId node_id \<in> set (validate_nodes nodes) \<longleftrightarrow>
      (\<exists>i j. j < i \<and> i < length nodes \<and> n_id (nodes ! i) = Some node_id
             \<and> n_id (nodes ! j) = Some node_id))
   \<and> (BadIdFormat node_id \<in> set (validate_nodes nodes) \<longleftrightarrow>
      node_id \<in> set (node_ids nodes) \<and> length (split_on CHR ''-'' node_id) < 3)
   \<and> (InvalidType node_id ty \<in> set (validate_nodes nodes) \<longleftrightarrow>
      (\<exists>nd \<in> set nodes. n_id nd = Some node_id \<and> n_type nd = Some ty \<and> ty \<notin> valid_types))
   \<and> (EdgeMissingTarget node_id \<in> set (validate_nodes nodes) \<longleftrightarrow>
      (\<exists>nd \<in> set nodes. n_id nd = Some node_id
         \<and> (\<exists>e \<in> set (get_edges nd). e_target e = None)))
   \<and> (NonExistentTarget node_id tgt \<in> set (validate_nodes nodes) \<longleftrightarrow>
      (\<exists>nd \<in> set nodes. n_id nd = Some node_id
         \<and> (\<exists>e \<in> set (get_edges nd). e_target e = Some tgt)
         \<and> tgt \<notin> set (node_ids nodes)))
   \<and> validate_body all_ids (k, nd\<lparr>n_id := None\<rparr>) (seen_ids, errors)
       = (seen_ids, errors @ missing_field_errors k (nd\<lparr>n_id := None\<rparr>))"
proof -
  have f: "(BadIdFormat node_id \<in> set (validate_nodes nodes) \<longleftrightarrow>
      node_id \<in> set (node_ids nodes) \<and> length (split_on CHR ''-'' node_id) < 3)"
    unfolding validate_nodes_snd fold_format by (auto simp: validate_id_format_def)
  have s: "validate_body all_ids (k, nd\<lparr>n_id := None\<rparr>) (seen_ids, errors)
       = (seen_ids, errors @ missing_field_errors k (nd\<lparr>n_id := None\<rparr>))"
    by (simp add: validate_body_def)
  show ?thesis
    unfolding validate_nodes_snd fold_missing fold_duplicate fold_type fold_edge_missing
      fold_dangling
    using f[unfolded validate_nodes_snd] s by (intro conjI) simp_all
qed

theorem validate_nodes_complete_witness:
  "validate_nodes
     [example_node ''a-x'' ''foo'' [''nope''],
      \<lparr>n_id = None, n_label = None, n_type = Some ''bad'', n_app = Some ''search'',
        n_owner = None, n_last_modified = None, n_spl_code = None,
        n_edges = Some [\<lparr>e_target = Some ''zz''\<rparr>]\<rparr>,
      example_node ''a-x'' ''macro'' []]
    = [BadIdFormat ''a-x'', InvalidType ''a-x'' ''foo'', NonExistentTarget ''a-x'' ''nope'',
       MissingField 1 ''id'', MissingField 1 ''label'', MissingField 1 ''owner'',
       MissingField 1 ''last_modified'', DuplicateId ''a-x'', BadIdFormat ''a-x'']
   \<and> (DuplicateId ''a-x'' \<in> set (validate_nodes
     [example_node ''a-x'' ''foo'' [''nope''],
      \<lparr>n_id = None, n_label = None, n_type = Some ''bad'', n_app = Some ''search'',
        n_owner = None, n_last_modified = None, n_spl_code = None,
        n_edges = Some [\<lparr>e_target = Some ''zz''\<rparr>]\<rparr>,
      example_node ''a-x'' ''macro'' []]))
   \<and> (InvalidType ''a-x'' ''bad'' \<notin> set (validate_nodes
     [example_node ''a-x'' ''foo'' [''nope''],
      \<lparr>n_id = None, n_label = None, n_type = Some ''bad'', n_app = Some ''search'',
        n_owner = None, n_last_modified = None, n_spl_code = None,
        n_edges = Some [\<lparr>e_target = Some ''zz''\<rparr>]\<rparr>,
      example_node ''a-x'' ''macro'' []]))"
proof -
  let ?nodes = "[example_node ''a-x'' ''foo'' [''nope''],
      \<lparr>n_id = None, n_label = None, n_type = Some ''bad'', n_app = Some ''search'',
        n_owner = None, n_last_modified = None, n_spl_code = None,
        n_edges = Some [\<lparr>e_target = Some ''zz''\<rparr>]\<rparr>,
      example_node ''a-x'' ''macro'' []]"
  have e: "validate_nodes ?nodes
    = [BadIdFormat ''a-x'', InvalidType ''a-x'' ''foo'', NonExistentTarget ''a-x'' ''nope'',
       MissingField 1 ''id'', MissingField 1 ''label'', MissingField 1 ''owner'',
       MissingField 1 ''last_modified'', DuplicateId ''a-x'', BadIdFormat ''a-x'']"
    by code_simp
  have i: "(0::nat) < 2 \<and> 2 < length ?nodes \<and> n_id (?nodes ! 2) = Some ''a-x''
      \<and> n_id (?nodes ! 0) = Some ''a-x''"
    by (simp add: example_node_def)
  have d: "DuplicateId ''a-x'' \<in> set (validate_nodes ?nodes)"
    using validate_nodes_complete[of _ _ ?nodes "''a-x''"] i by blast
  have n: "InvalidType ''a-x'' ''bad'' \<notin> set (validate_nodes ?nodes)"
    using validate_nodes_complete[of _ _ ?nodes "''a-x''" "''bad''"]
    by (simp add: example_node_def)
  from e d n show ?thesis by (intro conjI)
qed

text \<open>
  C10, as amended. On a node list in which every node has an id and every edge a target
  (validated or not: targets may dangle and ids may repeat), \<open>build_reverse_lookup\<close>
  returns a mapping whose keys are exactly the node ids, and the value under a key is the
  set of the ids of the nodes with an edge to it. An edge whose target is no node's id
  raises nothing and adds no key.
\<close>

theorem build_reverse_lookup_keys:
  assumes "\<forall>nd \<in> set nodes. n_id nd \<noteq> None \<and> (\<forall>e \<in> set (get_edges nd). e_target e \<noteq> None)"
  shows "\<exists>rl. build_reverse_lookup nodes = Inr rl
     \<and> fst ` set rl = set (node_ids nodes)
     \<and> (\<forall>k \<in> set (node_ids nodes).
          map_of rl k = Some {a. \<exists>nd \<in> set nodes. n_id nd = Some a
                                \<and> (\<exists>e \<in> set (get_edges nd). e_target e = Some k)})"
proof -
  from build_reverse_lookup_ok[OF assms] obtain rl where r:
    "build_reverse_lookup nodes = Inr rl"
    "\<forall>k. map_of rl k =
          (if k \<in> set (node_ids nodes) then Some {a. (a, k) \<in> node_edges nodes} else None)"
    by (elim exE conjE) (rule that)
  have "dom (map_of rl) = set (node_ids nodes)"
    using r(2) by (auto simp: dom_def)
  then have 2: "fst ` set rl = set (node_ids nodes)"
    by (simp add: dom_map_of_conv_image_fst)
  have 3: "\<forall>k \<in> set (node_ids nodes).
          map_of rl k = Some {a. \<exists>nd \<in> set nodes. n_id nd = Some a
                                \<and> (\<exists>e \<in> set (get_edges nd). e_target e = Some k)}"
    using r(2) by (simp add: node_edges_def)
  from r(1) 2 3 show ?thesis by (intro exI conjI)
qed

theorem build_reverse_lookup_keys_witness:
  "build_reverse_lookup
     [example_node ''a'' ''macro'' [''b'', ''ghost''], example_node ''b'' ''macro'' [''b''],
      example_node ''a'' ''macro'' [''b'']]
     = Inr [(''a'', {}), (''b'', {''a'', ''b''})]
   \<and> (\<exists>rl. build_reverse_lookup
     [example_node ''a'' ''macro'' [''b'', ''ghost''], example_node ''b'' ''macro'' [''b''],
      example_node ''a'' ''macro'' [''b'']] = Inr rl
      \<and> fst ` set rl = set (node_ids
     [example_node ''a'' ''macro'' [''b'', ''ghost''], example_node ''b'' ''macro'' [''b''],
      example_node ''a'' ''macro'' [''b'']]))"
proof -
  let ?nodes = "[example_node ''a'' ''macro'' [''b'', ''ghost''], example_node ''b'' ''macro'' [''b''],
      example_node ''a'' ''macro'' [''b'']]"
  have h: "\<forall>nd \<in> set ?nodes. n_id nd \<noteq> None \<and> (\<forall>e \<in> set (get_edges nd). e_target e \<noteq> None)"
    by (simp add: example_node_def get_edges_def)
  have e: "build_reverse_lookup ?nodes = Inr [(''a'', {}), (''b'', {''a'', ''b''})]"
    by code_simp
  from build_reverse_lookup_keys[OF h] obtain rl where
    "build_reverse_lookup ?nodes = Inr rl" "fst ` set rl = set (node_ids ?nodes)"
    by (elim exE conjE) (rule that)
  then have "\<exists>rl. build_reverse_lookup ?nodes = Inr rl \<and> fst ` set rl = set (node_ids ?nodes)"
    by (intro exI conjI)
  with e show ?thesis by (intro conjI)
qed

text \<open>
  C10 as stated fails: \<open>build_reverse_lookup\<close> is not total over every node list. On a
  node without \<open>id\<close> the subscript of line 117 raises \<open>KeyError\<close>, and on an edge without
  \<open>target\<close> the subscript of line 124 does.
\<close>

theorem build_reverse_lookup_not_total:
  "build_reverse_lookup
     [\<lparr>n_id = None, n_label = Some ''x'', n_type = Some ''macro'', n_app = Some ''search'',
       n_owner = Some ''admin'', n_last_modified = Some ''2024-01-01'', n_spl_code = None,
       n_edges = None\<rparr>]
   = Inl (KeyError ''id'')
   \<and> build_reverse_lookup
     [\<lparr>n_id = Some ''a-x-macro'', n_label = Some ''x'', n_type = Some ''macro'',
       n_app = Some ''search'', n_owner = Some ''admin'', n_last_modified = Some ''2024-01-01'',
       n_spl_code = None, n_edges = Some [\<lparr>e_target = None\<rparr>]\<rparr>]
   = Inl (KeyError ''target'')"
  by (simp add: build_reverse_lookup_def and_then_def subscript_def get_edges_def)

text \<open>
  C7. For a validated node list and a node of it with id \<open>N\<close>, the reverse lookup and the
  index are computed, the index has a record under \<open>N\<close>, and its \<open>isolated\<close> flag is true
  exactly when the node's \<open>edges\<close> list is absent or empty and no other node has an edge
  with target \<open>N\<close>; equivalently, when the node has no edges and the set under \<open>N\<close> in the
  reverse lookup is empty.
\<close>

theorem isolated_iff_no_edges_no_references:
  assumes "validate_nodes nodes = []" and "nd \<in> set nodes" and "n_id nd = Some N"
  shows "\<exists>rl index r.
           build_reverse_lookup nodes = Inr rl
         \<and> generate_index_json nodes rl = Inr index
         \<and> map_of index N = Some r
         \<and> (isolated r \<longleftrightarrow>
              (n_edges nd = None \<or> n_edges nd = Some [])
              \<and> \<not> (\<exists>m \<in> set nodes. m \<noteq> nd \<and> (\<exists>e \<in> set (get_edges m). e_target e = Some N)))
         \<and> (isolated r \<longleftrightarrow> get_edges nd = [] \<and> map_of rl N = Some {})"
proof -
  have wf: "well_formed nodes" by (rule validated_well_formed[OF assms(1)])
  have p1: "\<forall>nd \<in> set nodes. n_id nd \<noteq> None \<and> (\<forall>e \<in> set (get_edges nd). e_target e \<noteq> None)"
    using wf unfolding well_formed_def by fastforce
  have p2: "\<forall>nd \<in> set nodes. n_id nd \<noteq> None \<and> n_label nd \<noteq> None \<and> n_type nd \<noteq> None
        \<and> n_app nd \<noteq> None \<and> n_owner nd \<noteq> None"
    using wf unfolding well_formed_def by simp
  have p3: "distinct (map n_id nodes)" using wf unfolding well_formed_def by simp
  from build_reverse_lookup_ok[OF p1] obtain rl where rl:
    "build_reverse_lookup nodes = Inr rl"
    "\<forall>k. map_of rl k =
          (if k \<in> set (node_ids nodes) then Some {a. (a, k) \<in> node_edges nodes} else None)"
    by (elim exE conjE) (rule that)
  from index_loop_ok[OF p2 p3, of rl "[]"] obtain index where ix:
    "index_loop nodes rl [] = Inr index"
    "\<forall>nd \<in> set nodes. \<exists>r. map_of index (the (n_id nd)) = Some r
            \<and> isolated r = (get_edges nd = [] \<and> \<not> has_incoming rl (the (n_id nd)))"
    by (elim exE conjE) (rule that)
  from ix(2) assms(2,3) obtain r where r: "map_of index N = Some r"
    "isolated r = (get_edges nd = [] \<and> \<not> has_incoming rl N)"
    by fastforce
  have Nin: "N \<in> set (node_ids nodes)" using assms(2,3) by (auto simp: node_ids_iff)
  then have rlN: "map_of rl N = Some {a. (a, N) \<in> node_edges nodes}" using rl(2) by simp
  have inc: "has_incoming rl N \<longleftrightarrow> (\<exists>a. (a, N) \<in> node_edges nodes)"
    using rlN by (auto simp: has_incoming_def)
  have refs: "(\<exists>a. (a, N) \<in> node_edges nodes)
      \<longleftrightarrow> (\<exists>m \<in> set nodes. \<exists>e \<in> set (get_edges m). e_target e = Some N)"
    using p1 by (fastforce simp: node_edges_def)
  have ge: "get_edges nd = [] \<longleftrightarrow> (n_edges nd = None \<or> n_edges nd = Some [])"
    by (auto simp: get_edges_def split: option.splits)
  have other: "get_edges nd = [] \<Longrightarrow>
      (\<exists>m \<in> set nodes. \<exists>e \<in> set (get_edges m). e_target e = Some N)
      \<longleftrightarrow> (\<exists>m \<in> set nodes. m \<noteq> nd \<and> (\<exists>e \<in> set (get_edges m). e_target e = Some N))"
    by (metis empty_iff empty_set)
  have c1: "isolated r \<longleftrightarrow>
              (n_edges nd = None \<or> n_edges nd = Some [])
              \<and> \<not> (\<exists>m \<in> set nodes. m \<noteq> nd \<and> (\<exists>e \<in> set (get_edges m). e_target e = Some N))"
    unfolding r(2) inc refs using ge other by blast
  have c2: "isolated r \<longleftrightarrow> get_edges nd = [] \<and> map_of rl N = Some {}"
    unfolding r(2) inc using rlN by auto
  have g: "generate_index_json nodes rl = Inr index"
    using ix(1) by (simp add: generate_index_json_def)
  from rl(1) g r(1) c1 c2 show ?thesis by (intro exI conjI)
qed

theorem isolated_iff_no_edges_no_references_witness:
  "validate_nodes diamond = []
   \<and> example_node ''e-x-index'' ''index'' [] \<in> set diamond
   \<and> n_id (example_node ''e-x-index'' ''index'' []) = Some ''e-x-index''
   \<and> (\<exists>rl index r.
           build_reverse_lookup diamond = Inr rl
         \<and> generate_index_json diamond rl = Inr index
         \<and> map_of index ''e-x-index'' = Some r
         \<and> isolated r)"
proof -
  let ?nd = "example_node ''e-x-index'' ''index'' []"
  have h1: "validate_nodes diamond = []" by code_simp
  have h2: "?nd \<in> set diamond" by (simp add: diamond_def)
  have h3: "n_id ?nd = Some ''e-x-index''" by (simp add: example_node_def)
  have none: "n_edges ?nd = None \<or> n_edges ?nd = Some []" by (simp add: example_node_def)
  have noref: "\<not> (\<exists>m \<in> set diamond. m \<noteq> ?nd
      \<and> (\<exists>e \<in> set (get_edges m). e_target e = Some ''e-x-index''))"
    by (auto simp: diamond_def example_node_def get_edges_def)
  from isolated_iff_no_edges_no_references[OF h1 h2 h3] obtain rl index r where
    "build_reverse_lookup diamond = Inr rl" "generate_index_json diamond rl = Inr index"
    "map_of index ''e-x-index'' = Some r"
    "isolated r \<longleftrightarrow>
              (n_edges ?nd = None \<or> n_edges ?nd = Some [])
              \<and> \<not> (\<exists>m \<in> set diamond. m \<noteq> ?nd
                   \<and> (\<exists>e \<in> set (get_edges m). e_target e = Some ''e-x-index''))"
    by (elim exE conjE) (rule that)
  then have "\<exists>rl index r.
           build_reverse_lookup diamond = Inr rl
         \<and> generate_index_json diamond rl = Inr index
         \<and> map_of index ''e-x-index'' = Some r
         \<and> isolated r"
    using none noref by blast
  with h1 h2 h3 show ?thesis by (intro conjI)
qed

text \<open>
  C4. For a validated node list, whatever the iteration order of Python sets, the builder
  and the graph emitter return, \<open>graph.json\<close> has one record per node, in input order, and
  the \<open>edges\<close> list of the record of each node \<open>N\<close>, read as \<open>(source, target)\<close> pairs,
  \<^item> has as elements the union of the downstream closure of \<open>N\<close> over \<open>outgoing\<close> and the
    upstream closure of \<open>N\<close> over \<open>incoming\<close>;
  \<^item> has no pair twice and is sorted in the lexicographic order of pairs of strings;
  \<^item> is the sorted list of a set that depends on the input only through the set of its
    declared edges (the edges \<open>(u, v)\<close> with \<open>u\<close> reachable from \<open>N\<close> or \<open>N\<close> reachable from
    \<open>v\<close>): the order and the repetitions of the edges in the input do not matter.
\<close>

theorem graph_edges_sorted_union:
  assumes "validate_nodes nodes = []" and "set_iteration iter_order"
  shows "\<exists>outgoing incoming graph.
           build_graph_structures nodes = Inr (outgoing, incoming)
         \<and> generate_graph_json iter_order nodes outgoing incoming = Inr graph
         \<and> map g_id (g_nodes graph) = node_ids nodes
         \<and> (\<forall>gn \<in> set (g_nodes graph).
              set (map (\<lambda>e. (source e, target e)) (g_edges gn))
                = set (collect_transitive_edges (g_id gn) outgoing ''downstream'')
                  \<union> set (collect_transitive_edges (g_id gn) incoming ''upstream'')
            \<and> distinct (map (\<lambda>e. (source e, target e)) (g_edges gn))
            \<and> sorted (map (\<lambda>e. (source e, target e)) (g_edges gn))
            \<and> map (\<lambda>e. (source e, target e)) (g_edges gn)
                = sorted_list_of_set
                    {(u, v) \<in> node_edges nodes.
                       (g_id gn, u) \<in> (node_edges nodes)\<^sup>* \<or> (v, g_id gn) \<in> (node_edges nodes)\<^sup>*})"
proof -
  have wf: "well_formed nodes" by (rule validated_well_formed[OF assms(1)])
  from build_graph_structures_ok[OF wf]
  obtain outgoing incoming where b: "build_graph_structures nodes = Inr (outgoing, incoming)"
    "adj_rel outgoing = node_edges nodes" "adj_rel incoming = (node_edges nodes)\<inverse>"
    by (elim exE conjE) (rule that)
  have p: "\<forall>nd \<in> set nodes. n_id nd \<noteq> None \<and> n_label nd \<noteq> None \<and> n_type nd \<noteq> None
        \<and> n_app nd \<noteq> None \<and> n_owner nd \<noteq> None \<and> n_last_modified nd \<noteq> None"
    using wf unfolding well_formed_def by simp
  from graph_loop_ok[OF p, of iter_order outgoing incoming "[]"] obtain gs where g:
    "graph_loop iter_order nodes outgoing incoming [] = Inr ([] @ gs)"
    "map g_id gs = node_ids nodes"
    "\<forall>g \<in> set gs. g_edges g = collect_all_edges_for_node iter_order (g_id g) outgoing incoming"
    by (elim exE conjE) (rule that)
  let ?graph = "\<lparr>version = ''1.0.0'', g_nodes = gs\<rparr>"
  have 1: "generate_graph_json iter_order nodes outgoing incoming = Inr ?graph"
    using g(1) by (simp add: generate_graph_json_def and_then_def)
  have 2: "map g_id (g_nodes ?graph) = node_ids nodes" using g(2) by simp
  have 3: "\<forall>gn \<in> set (g_nodes ?graph).
              set (map (\<lambda>e. (source e, target e)) (g_edges gn))
                = set (collect_transitive_edges (g_id gn) outgoing ''downstream'')
                  \<union> set (collect_transitive_edges (g_id gn) incoming ''upstream'')
            \<and> distinct (map (\<lambda>e. (source e, target e)) (g_edges gn))
            \<and> sorted (map (\<lambda>e. (source e, target e)) (g_edges gn))
            \<and> map (\<lambda>e. (source e, target e)) (g_edges gn)
                = sorted_list_of_set
                    {(u, v) \<in> node_edges nodes.
                       (g_id gn, u) \<in> (node_edges nodes)\<^sup>* \<or> (v, g_id gn) \<in> (node_edges nodes)\<^sup>*}"
  proof
    fix gn assume "gn \<in> set (g_nodes ?graph)"
    then have e: "g_edges gn = collect_all_edges_for_node iter_order (g_id gn) outgoing incoming"
      using g(3) by simp
    let ?S = "set (collect_transitive_edges (g_id gn) outgoing ''downstream'')
                  \<union> set (collect_transitive_edges (g_id gn) incoming ''upstream'')"
    have m: "map (\<lambda>e. (source e, target e)) (g_edges gn) = sorted_list_of_set ?S"
      unfolding e by (rule collect_all_pairs[OF assms(2)])
    have f: "finite ?S" by simp
    have s: "?S = {(u, v) \<in> node_edges nodes.
                       (g_id gn, u) \<in> (node_edges nodes)\<^sup>* \<or> (v, g_id gn) \<in> (node_edges nodes)\<^sup>*}"
      by (rule closure_sets_in_edges[OF b(2,3)])
    have a1: "set (map (\<lambda>e. (source e, target e)) (g_edges gn)) = ?S"
      unfolding m using f by simp
    have a2: "distinct (map (\<lambda>e. (source e, target e)) (g_edges gn))"
      unfolding m by simp
    have a3: "sorted (map (\<lambda>e. (source e, target e)) (g_edges gn))"
      unfolding m by simp
    have a4: "map (\<lambda>e. (source e, target e)) (g_edges gn)
                = sorted_list_of_set
                    {(u, v) \<in> node_edges nodes.
                       (g_id gn, u) \<in> (node_edges nodes)\<^sup>* \<or> (v, g_id gn) \<in> (node_edges nodes)\<^sup>*}"
      using m s by simp
    from a1 a2 a3 a4
    show "set (map (\<lambda>e. (source e, target e)) (g_edges gn))
                = set (collect_transitive_edges (g_id gn) outgoing ''downstream'')
                  \<union> set (collect_transitive_edges (g_id gn) incoming ''upstream'')
            \<and> distinct (map (\<lambda>e. (source e, target e)) (g_edges gn))
            \<and> sorted (map (\<lambda>e. (source e, target e)) (g_edges gn))
            \<and> map (\<lambda>e. (source e, target e)) (g_edges gn)
                = sorted_list_of_set
                    {(u, v) \<in> node_edges nodes.
                       (g_id gn, u) \<in> (node_edges nodes)\<^sup>* \<or> (v, g_id gn) \<in> (node_edges nodes)\<^sup>*}"
      by (intro conjI)
  qed
  from b(1) 1 2 3 show ?thesis by (intro exI conjI)
qed

theorem graph_edges_sorted_union_witness:
  "validate_nodes diamond = []
   \<and> set_iteration (\<lambda>S :: (string \<times> string) set. rev (sorted_list_of_set S))
   \<and> (\<exists>outgoing incoming graph.
           build_graph_structures diamond = Inr (outgoing, incoming)
         \<and> generate_graph_json (\<lambda>S. rev (sorted_list_of_set S)) diamond outgoing incoming
             = Inr graph
         \<and> map g_id (g_nodes graph) = node_ids diamond)
   \<and> collect_all_edges_for_node (\<lambda>S. rev (sorted_list_of_set S)) ''b-x-macro''
        [(''a-x-macro'', [''b-x-macro'', ''c-x-macro'', ''b-x-macro'']),
         (''b-x-macro'', [''d-x-index'']), (''c-x-macro'', [''d-x-index'']),
         (''d-x-index'', []), (''e-x-index'', [])]
        [(''a-x-macro'', []), (''b-x-macro'', [''a-x-macro'', ''a-x-macro'']),
         (''c-x-macro'', [''a-x-macro'']), (''d-x-index'', [''b-x-macro'', ''c-x-macro'']),
         (''e-x-index'', [])]
      = [\<lparr>source = ''a-x-macro'', target = ''b-x-macro''\<rparr>,
         \<lparr>source = ''b-x-macro'', target = ''d-x-index''\<rparr>]"
proof -
  have h1: "validate_nodes diamond = []" by code_simp
  have h2: "set_iteration (\<lambda>S :: (string \<times> string) set. rev (sorted_list_of_set S))"
    by (simp add: set_iteration_def)
  from graph_edges_sorted_union[OF h1 h2] obtain outgoing incoming graph where
    "build_graph_structures diamond = Inr (outgoing, incoming)"
    "generate_graph_json (\<lambda>S. rev (sorted_list_of_set S)) diamond outgoing incoming = Inr graph"
    "map g_id (g_nodes graph) = node_ids diamond"
    by (elim exE conjE) (rule that)
  then have e: "\<exists>outgoing incoming graph.
           build_graph_structures diamond = Inr (outgoing, incoming)
         \<and> generate_graph_json (\<lambda>S. rev (sorted_list_of_set S)) diamond outgoing incoming
             = Inr graph
         \<and> map g_id (g_nodes graph) = node_ids diamond"
    by (intro exI conjI)
  have c: "collect_all_edges_for_node (\<lambda>S. rev (sorted_list_of_set S)) ''b-x-macro''
        [(''a-x-macro'', [''b-x-macro'', ''c-x-macro'', ''b-x-macro'']),
         (''b-x-macro'', [''d-x-index'']), (''c-x-macro'', [''d-x-index'']),
         (''d-x-index'', []), (''e-x-index'', [])]
        [(''a-x-macro'', []), (''b-x-macro'', [''a-x-macro'', ''a-x-macro'']),
         (''c-x-macro'', [''a-x-macro'']), (''d-x-index'', [''b-x-macro'', ''c-x-macro'']),
         (''e-x-index'', [])]
      = [\<lparr>source = ''a-x-macro'', target = ''b-x-macro''\<rparr>,
         \<lparr>source = ''b-x-macro'', target = ''d-x-index''\<rparr>]"
    by code_simp
  from h1 h2 e c show ?thesis by (intro conjI)
qed

text \<open>
  C8. When \<open>validate_nodes\<close> returns a non-empty error list the run ends with exit status
  1, having created no directory and written no file, whatever the other arguments are.
\<close>

theorem failed_validation_writes_nothing:
  "validate_nodes nodes \<noteq> [] \<Longrightarrow>
   main iter_order output_dir validate_only nodes
     = \<lparr>exit_status = 1, dirs_created = [], files_written = []\<rparr>"
  by (simp add: main_def)

theorem failed_validation_writes_nothing_witness:
  "validate_nodes (diamond @ [example_node ''f-x-index'' ''index'' [''ghost'']]) \<noteq> []
   \<and> main sorted_list_of_set ''public'' False
       (diamond @ [example_node ''f-x-index'' ''index'' [''ghost'']])
     = \<lparr>exit_status = 1, dirs_created = [], files_written = []\<rparr>"
proof -
  have h: "validate_nodes (diamond @ [example_node ''f-x-index'' ''index'' [''ghost'']]) \<noteq> []"
    by code_simp
  from failed_validation_writes_nothing[OF h] h show ?thesis by (intro conjI)
qed

text \<open>
  C9. The only thing in the program that can differ between two runs on the same input is
  the order in which a Python set is iterated. The index content is computed without
  iterating any set; the graph content, and with it the whole outcome of a run (exit
  status, directories, and every file written with its content), is the same for any two
  iteration orders.
\<close>

theorem generation_deterministic:
  assumes "set_iteration en1" and "set_iteration en2"
  shows "generate_graph_json en1 nodes outgoing incoming
           = generate_graph_json en2 nodes outgoing incoming
       \<and> main en1 output_dir validate_only nodes = main en2 output_dir validate_only nodes"
proof -
  have g: "\<And>nds out inc. generate_graph_json en1 nds out inc = generate_graph_json en2 nds out inc"
    by (rule generate_graph_json_iteration_independent[OF assms])
  have m: "main en1 output_dir validate_only nodes = main en2 output_dir validate_only nodes"
    unfolding main_def g by (rule refl)
  from g[of nodes outgoing incoming] m show ?thesis by (intro conjI)
qed

theorem generation_deterministic_witness:
  "set_iteration (sorted_list_of_set :: (string \<times> string) set \<Rightarrow> (string \<times> string) list)
   \<and> set_iteration (\<lambda>S :: (string \<times> string) set. rev (sorted_list_of_set S))
   \<and> main sorted_list_of_set ''public'' False diamond
       = main (\<lambda>S. rev (sorted_list_of_set S)) ''public'' False diamond
   \<and> exit_status (main sorted_list_of_set ''public'' False diamond) = 0
   \<and> map fst (files_written (main sorted_list_of_set ''public'' False diamond))
       = [''public/index.json'', ''public/graph.json'', ''public/nodes/a-x-macro.json'',
          ''public/nodes/b-x-macro.json'', ''public/nodes/c-x-macro.json'',
          ''public/nodes/d-x-index.json'', ''public/nodes/e-x-index.json'']"
proof -
  have h1: "set_iteration (sorted_list_of_set :: (string \<times> string) set \<Rightarrow> (string \<times> string) list)"
    by (simp add: set_iteration_def)
  have h2: "set_iteration (\<lambda>S :: (string \<times> string) set. rev (sorted_list_of_set S))"
    by (simp add: set_iteration_def)
  have e: "exit_status (main sorted_list_of_set ''public'' False diamond) = 0"
    by code_simp
  have f: "map fst (files_written (main sorted_list_of_set ''public'' False diamond))
       = [''public/index.json'', ''public/graph.json'', ''public/nodes/a-x-macro.json'',
          ''public/nodes/b-x-macro.json'', ''public/nodes/c-x-macro.json'',
          ''public/nodes/d-x-index.json'', ''public/nodes/e-x-index.json'']"
    by code_simp
  from generation_deterministic[OF h1 h2, of diamond _ _ "''public''" False]
  have "main sorted_list_of_set ''public'' False diamond
       = main (\<lambda>S. rev (sorted_list_of_set S)) ''public'' False diamond"
    by (rule conjunct2)
  with h1 h2 e f show ?thesis by (intro conjI)
qed

end
